theory Spec2Isabelle
  imports Main "HOL-Library.Sublist" "HOL-Library.Multiset"
begin

section \<open>Data shapes (app/lib/definitions.ts)\<close>

text \<open>
  The record types of \<^verbatim>\<open>definitions.ts\<close>. Field names carry the type's name as a
  prefix (\<^verbatim>\<open>User.id\<close> is \<open>user_id\<close>, \<^verbatim>\<open>Invoice.customer_id\<close> is
  \<open>invoice_customer_id\<close>), since several types share the fields \<^verbatim>\<open>id\<close>,
  \<^verbatim>\<open>name\<close> and \<^verbatim>\<open>email\<close>. The string union \<^verbatim>\<open>'pending' | 'paid'\<close> is a
  datatype with two values; \<open>status_text\<close> is the string that reaches the database.
\<close>

record User =
  user_id :: string
  user_name :: string
  user_email :: string
  user_password :: string

record Customer =
  customer_id :: string
  customer_name :: string
  customer_email :: string
  customer_image_url :: string

datatype InvoiceStatus = pending | paid

fun status_text :: "InvoiceStatus \<Rightarrow> string" where
  "status_text pending = ''pending''"
| "status_text paid = ''paid''"

record Invoice =
  invoice_id :: string
  invoice_customer_id :: string
  invoice_amount :: int
  invoice_date :: string
  invoice_status :: InvoiceStatus

record Revenue =
  revenue_month :: string
  revenue_revenue :: int

text \<open>
  The fixture lists imported from \<^verbatim>\<open>../lib/placeholder-data\<close>. That module is not
  part of the sources at hand, so the lists are a parameter of the model.
\<close>

record placeholder_data =
  users :: "User list"
  customers :: "Customer list"
  invoices :: "Invoice list"
  revenue :: "Revenue list"

section \<open>The module's collaborators\<close>

datatype sql_error =
    unique_violation string
  | undefined_table string
  | invalid_input string
  | in_failed_sql_transaction
  | failure string

text \<open>
  What the route does not decide itself is a parameter:
  \<^item> \<open>fault n\<close>: the \<open>n\<close>-th statement sent on the client is rejected from outside (the
    connection is lost, the server is not reachable);
  \<^item> \<open>uuid_in s\<close>: the value the server reads from the text \<open>s\<close> for a column of type
    \<^verbatim>\<open>UUID\<close>, in its canonical spelling, or \<open>None\<close> when the text is no UUID; two texts
    that spell the same UUID are read as the same value;
  \<^item> \<open>date_in s\<close>: likewise for a column of type \<^verbatim>\<open>DATE\<close>;
  \<^item> \<open>uuid_generate_v4 n\<close>: the UUID the server draws while it runs the \<open>n\<close>-th statement;
  \<^item> \<open>bcrypt_hash k data rounds\<close>: the result of the \<open>k\<close>-th call \<^verbatim>\<open>bcrypt.hash(data, rounds)\<close>
    of the process (each call draws its own salt), and \<open>bcrypt_compare data hash\<close>, the
    library's check;
  \<^item> \<open>hash_order k\<close> and \<open>in_flight k\<close>: the timing of the hashes that start at call \<open>k\<close>:
    the order in which they resolve (see \<open>arrange\<close>), and the number of further inserts
    that have already been sent when the first rejected insert is reported.
\<close>

record env =
  fault :: "nat \<Rightarrow> sql_error option"
  uuid_in :: "string \<Rightarrow> string option"
  date_in :: "string \<Rightarrow> string option"
  uuid_generate_v4 :: "nat \<Rightarrow> string"
  bcrypt_hash :: "nat \<Rightarrow> string \<Rightarrow> nat \<Rightarrow> string"
  bcrypt_compare :: "string \<Rightarrow> string \<Rightarrow> bool"
  hash_order :: "nat \<Rightarrow> nat list"
  in_flight :: "nat \<Rightarrow> nat"

section \<open>The database behind \<^verbatim>\<open>client\<close>\<close>

text \<open>
  The four tables as the \<^verbatim>\<open>CREATE TABLE\<close> statements of the seed route declare them.
  A table that does not exist is \<open>None\<close>. A row holds the values the server stored: a
  UUID in its canonical spelling, a \<^verbatim>\<open>VARCHAR(n)\<close> after the length check, the status
  of an invoice as text (\<^verbatim>\<open>VARCHAR(255)\<close>, no check constraint).
\<close>

record InvoiceRow =
  row_id :: string
  row_customer_id :: string
  row_amount :: int
  row_status :: string
  row_date :: string

record tables =
  users_t :: "User list option"
  customers_t :: "Customer list option"
  invoices_t :: "InvoiceRow list option"
  revenue_t :: "Revenue list option"

fun rows :: "'a list option \<Rightarrow> 'a list" where
  "rows None = []"
| "rows (Some rs) = rs"

definition row_count :: "'a list option \<Rightarrow> nat" where
  "row_count t = length (rows t)"

definition empty_tables :: tables where
  "empty_tables = \<lparr>users_t = None, customers_t = None, invoices_t = None, revenue_t = None\<rparr>"

text \<open>The statements the seed route sends, one constructor per SQL template.\<close>

datatype stmt =
    BEGIN
  | COMMIT
  | ROLLBACK
  | CREATE_EXTENSION
  | CREATE_TABLE_users
  | CREATE_TABLE_customers
  | CREATE_TABLE_invoices
  | CREATE_TABLE_revenue
  | INSERT_users string string string string
  | INSERT_customers string string string string
  | INSERT_invoices string int string string
  | INSERT_revenue string int

text \<open>
  A value assigned to a \<^verbatim>\<open>VARCHAR(n)\<close> column is stored as it is when it has at most
  \<open>n\<close> characters, cut to \<open>n\<close> characters when all the excess is spaces, and refused
  otherwise. An \<^verbatim>\<open>INT\<close> column takes the 32-bit signed integers. \<^verbatim>\<open>TEXT\<close> is stored
  as it is.
\<close>

definition varchar :: "nat \<Rightarrow> string \<Rightarrow> string option" where
  "varchar n s =
     (if length s \<le> n then Some s
      else if list_all (\<lambda>ch. ch = CHR '' '') (drop n s) then Some (take n s)
      else None)"

definition int4 :: "int \<Rightarrow> int option" where
  "int4 x = (if - 2147483648 \<le> x \<and> x \<le> 2147483647 then Some x else None)"

text \<open>
  The row an insert forms from its parameters, each read by the type of its column;
  \<open>None\<close> when a column refuses its value. \<open>g\<close> is the value \<^verbatim>\<open>uuid_generate_v4()\<close>
  returns while the statement runs: the \<^verbatim>\<open>id\<close> default of \<^verbatim>\<open>invoices\<close>, the only insert
  that names no \<^verbatim>\<open>id\<close>.
\<close>

definition users_row :: "env \<Rightarrow> string \<Rightarrow> string \<Rightarrow> string \<Rightarrow> string \<Rightarrow> User option" where
  "users_row e i n em pw =
     (case uuid_in e i of
        None \<Rightarrow> None
      | Some i' \<Rightarrow>
          (case varchar 255 n of
             None \<Rightarrow> None
           | Some n' \<Rightarrow>
               Some \<lparr>user_id = i', user_name = n', user_email = em, user_password = pw\<rparr>))"

definition customers_row :: "env \<Rightarrow> string \<Rightarrow> string \<Rightarrow> string \<Rightarrow> string \<Rightarrow> Customer option" where
  "customers_row e i n em img =
     (case uuid_in e i of
        None \<Rightarrow> None
      | Some i' \<Rightarrow>
          (case varchar 255 n of
             None \<Rightarrow> None
           | Some n' \<Rightarrow>
               (case varchar 255 em of
                  None \<Rightarrow> None
                | Some em' \<Rightarrow>
                    (case varchar 255 img of
                       None \<Rightarrow> None
                     | Some img' \<Rightarrow>
                         Some \<lparr>customer_id = i', customer_name = n', customer_email = em',
                           customer_image_url = img'\<rparr>))))"

definition invoices_row :: "env \<Rightarrow> string \<Rightarrow> string \<Rightarrow> int \<Rightarrow> string \<Rightarrow> string \<Rightarrow> InvoiceRow option" where
  "invoices_row e g cid amt st dt =
     (case uuid_in e cid of
        None \<Rightarrow> None
      | Some cid' \<Rightarrow>
          (case int4 amt of
             None \<Rightarrow> None
           | Some amt' \<Rightarrow>
               (case varchar 255 st of
                  None \<Rightarrow> None
                | Some st' \<Rightarrow>
                    (case date_in e dt of
                       None \<Rightarrow> None
                     | Some dt' \<Rightarrow>
                         Some \<lparr>row_id = g, row_customer_id = cid', row_amount = amt',
                           row_status = st', row_date = dt'\<rparr>))))"

definition revenue_row :: "string \<Rightarrow> int \<Rightarrow> Revenue option" where
  "revenue_row m r =
     (case varchar 4 m of
        None \<Rightarrow> None
      | Some m' \<Rightarrow>
          (case int4 r of
             None \<Rightarrow> None
           | Some r' \<Rightarrow> Some \<lparr>revenue_month = m', revenue_revenue = r'\<rparr>))"

text \<open>
  \<open>exec e g q t\<close> is the effect of one data statement on the tables.
  \<^item> \<^verbatim>\<open>CREATE TABLE IF NOT EXISTS\<close> keeps an existing table.
  \<^item> \<^verbatim>\<open>ON CONFLICT (id) DO NOTHING\<close> skips the row when a row with the same id value
    is present; the \<^verbatim>\<open>UNIQUE\<close> constraint on \<^verbatim>\<open>users.email\<close> is not the conflict
    target, so a duplicate email with a new id is an error.
  \<^item> \<^verbatim>\<open>ON CONFLICT (month) DO NOTHING\<close> likewise for \<^verbatim>\<open>revenue\<close>.
\<close>

fun exec :: "env \<Rightarrow> string \<Rightarrow> stmt \<Rightarrow> tables \<Rightarrow> sql_error + tables" where
  "exec e g CREATE_EXTENSION t = Inr t"
| "exec e g CREATE_TABLE_users t = Inr (t\<lparr>users_t := Some (rows (users_t t))\<rparr>)"
| "exec e g CREATE_TABLE_customers t = Inr (t\<lparr>customers_t := Some (rows (customers_t t))\<rparr>)"
| "exec e g CREATE_TABLE_invoices t = Inr (t\<lparr>invoices_t := Some (rows (invoices_t t))\<rparr>)"
| "exec e g CREATE_TABLE_revenue t = Inr (t\<lparr>revenue_t := Some (rows (revenue_t t))\<rparr>)"
| "exec e g (INSERT_users i n em pw) t =
     (case users_t t of
        None \<Rightarrow> Inl (undefined_table ''users'')
      | Some rs \<Rightarrow>
          (case users_row e i n em pw of
             None \<Rightarrow> Inl (invalid_input ''users'')
           | Some r \<Rightarrow>
               if user_id r \<in> set (map user_id rs) then Inr t
               else if user_email r \<in> set (map user_email rs)
                 then Inl (unique_violation ''users_email_key'')
               else Inr (t\<lparr>users_t := Some (rs @ [r])\<rparr>)))"
| "exec e g (INSERT_customers i n em img) t =
     (case customers_t t of
        None \<Rightarrow> Inl (undefined_table ''customers'')
      | Some rs \<Rightarrow>
          (case customers_row e i n em img of
             None \<Rightarrow> Inl (invalid_input ''customers'')
           | Some r \<Rightarrow>
               if customer_id r \<in> set (map customer_id rs) then Inr t
               else Inr (t\<lparr>customers_t := Some (rs @ [r])\<rparr>)))"
| "exec e g (INSERT_invoices cid amt st dt) t =
     (case invoices_t t of
        None \<Rightarrow> Inl (undefined_table ''invoices'')
      | Some rs \<Rightarrow>
          (case invoices_row e g cid amt st dt of
             None \<Rightarrow> Inl (invalid_input ''invoices'')
           | Some r \<Rightarrow>
               if row_id r \<in> set (map row_id rs) then Inr t
               else Inr (t\<lparr>invoices_t := Some (rs @ [r])\<rparr>)))"
| "exec e g (INSERT_revenue m r) t =
     (case revenue_t t of
        None \<Rightarrow> Inl (undefined_table ''revenue'')
      | Some rs \<Rightarrow>
          (case revenue_row m r of
             None \<Rightarrow> Inl (invalid_input ''revenue'')
           | Some r' \<Rightarrow>
               if revenue_month r' \<in> set (map revenue_month rs) then Inr t
               else Inr (t\<lparr>revenue_t := Some (rs @ [r'])\<rparr>)))"
| "exec e g BEGIN t = Inr t"
| "exec e g COMMIT t = Inr t"
| "exec e g ROLLBACK t = Inr t"

text \<open>
  The session's transaction state: none open, one open with the tables as they were at
  \<^verbatim>\<open>BEGIN\<close>, or one that a failed statement has aborted. In an aborted transaction
  every statement but \<^verbatim>\<open>COMMIT\<close> and \<^verbatim>\<open>ROLLBACK\<close> fails; both end it and restore
  the tables. With no transaction open a statement is committed as it runs.
\<close>

datatype txn_state = NoTxn | InTxn tables | Aborted tables

fun fail_txn :: "txn_state \<Rightarrow> txn_state" where
  "fail_txn NoTxn = NoTxn"
| "fail_txn (InTxn s) = Aborted s"
| "fail_txn (Aborted s) = Aborted s"

fun aborted :: "txn_state \<Rightarrow> bool" where
  "aborted (Aborted s) = True"
| "aborted x = False"

fun is_control :: "stmt \<Rightarrow> bool" where
  "is_control BEGIN = True"
| "is_control COMMIT = True"
| "is_control ROLLBACK = True"
| "is_control q = False"

definition server :: "env \<Rightarrow> string \<Rightarrow> stmt \<Rightarrow> tables \<Rightarrow> txn_state
    \<Rightarrow> sql_error option \<times> tables \<times> txn_state" where
  "server e g q t x =
     (if q = COMMIT then
        (case x of
           NoTxn \<Rightarrow> (None, t, NoTxn)
         | InTxn s \<Rightarrow> (None, t, NoTxn)
         | Aborted s \<Rightarrow> (None, s, NoTxn))
      else if q = ROLLBACK then
        (case x of
           NoTxn \<Rightarrow> (None, t, NoTxn)
         | InTxn s \<Rightarrow> (None, s, NoTxn)
         | Aborted s \<Rightarrow> (None, s, NoTxn))
      else if aborted x then (Some in_failed_sql_transaction, t, x)
      else if q = BEGIN then
        (case x of
           NoTxn \<Rightarrow> (None, t, InTxn t)
         | InTxn s \<Rightarrow> (None, t, InTxn s)
         | Aborted s \<Rightarrow> (None, t, x))
      else
        (case exec e g q t of
           Inl err \<Rightarrow> (Some err, t, fail_txn x)
         | Inr t' \<Rightarrow> (None, t', x)))"

section \<open>The state of the process\<close>

text \<open>
  The state of \<^verbatim>\<open>const client = await db.connect()\<close> and the database behind it: the
  tables as the session sees them, the transaction state, the statements sent so far and
  the answer to each (\<open>None\<close>: the promise resolved), and of the process around it: the
  number of \<^verbatim>\<open>bcrypt.hash\<close> calls made so far, and the inserts of \<^verbatim>\<open>seedUsers\<close> whose
  callback is still waiting for its hash.
\<close>

record client =
  cur :: tables
  txn :: txn_state
  sent :: "stmt list"
  answered :: "sql_error option list"
  hashed :: nat
  waiting :: "stmt list"

definition persisted :: "client \<Rightarrow> tables" where
  "persisted c = (case txn c of NoTxn \<Rightarrow> cur c | InTxn s \<Rightarrow> s | Aborted s \<Rightarrow> s)"

definition fresh_client :: client where
  "fresh_client =
     \<lparr>cur = empty_tables, txn = NoTxn, sent = [], answered = [], hashed = 0, waiting = []\<rparr>"

definition logged :: "stmt \<Rightarrow> sql_error option \<Rightarrow> client \<Rightarrow> client" where
  "logged q r c = c\<lparr>sent := sent c @ [q], answered := answered c @ [r]\<rparr>"

text \<open>
  \<^verbatim>\<open>await client.sql`...`\<close>: the statement and its answer are appended to the log; the
  result is \<open>Some err\<close> when the promise rejects with \<open>err\<close> and \<open>None\<close> when it resolves.
  A statement rejected from outside changes no table and, like a statement the server
  rejects, aborts the open transaction if there is one.
\<close>

definition sql :: "env \<Rightarrow> stmt \<Rightarrow> client \<Rightarrow> sql_error option \<times> client" where
  "sql e q c =
     (case fault e (length (sent c)) of
        Some err \<Rightarrow> (Some err, logged q (Some err) (c\<lparr>txn := fail_txn (txn c)\<rparr>))
      | None \<Rightarrow>
          (case server e (uuid_generate_v4 e (length (sent c))) q (cur c) (txn c) of
             (r, t, x) \<Rightarrow> (r, logged q r (c\<lparr>cur := t, txn := x\<rparr>))))"

text \<open>
  \<open>await r k\<close>: continue with \<open>k\<close> when the awaited step resolved, propagate its
  exception otherwise.
\<close>

definition await :: "sql_error option \<times> client \<Rightarrow> (client \<Rightarrow> sql_error option \<times> client)
    \<Rightarrow> sql_error option \<times> client" where
  "await r k = (case r of (Some err, c) \<Rightarrow> (Some err, c) | (None, c) \<Rightarrow> k c)"

text \<open>
  \<^verbatim>\<open>await Promise.all(xs.map(x => client.sql`...`))\<close>: the callback sends its statement
  at once, so every statement of the list is queued on the client before the first
  answer arrives: all of them run, in order, and the result is the first rejection, if
  any.
\<close>

fun Promise_all :: "env \<Rightarrow> stmt list \<Rightarrow> client \<Rightarrow> sql_error option \<times> client" where
  "Promise_all e [] c = (None, c)"
| "Promise_all e (q # qs) c =
     (case sql e q c of
        (r, c1) \<Rightarrow>
          (case Promise_all e qs c1 of
             (rs, c2) \<Rightarrow> (case r of Some err \<Rightarrow> Some err | None \<Rightarrow> rs, c2)))"

text \<open>
  In \<^verbatim>\<open>seedUsers\<close> the callback first awaits \<^verbatim>\<open>bcrypt.hash\<close> and sends its insert when
  the hash has resolved. The hashes resolve in any order: \<open>arrange ps xs\<close> is the
  permutation of \<open>xs\<close> that the code \<open>ps\<close> describes (the element at the head is put at
  position \<open>p\<close> among those after it), the identity for \<open>ps = []\<close>.
\<close>

fun arrange :: "nat list \<Rightarrow> 'a list \<Rightarrow> 'a list" where
  "arrange ps [] = []"
| "arrange [] (x # xs) = x # xs"
| "arrange (p # ps) (x # xs) =
     (let r = arrange ps xs; i = p mod Suc (length r) in take i r @ x # drop i r)"

text \<open>
  \<^verbatim>\<open>Promise.all\<close> over such callbacks, with the inserts \<open>qs\<close> in the order in which their
  hashes resolve. It rejects as soon as one insert is rejected. The \<open>n\<close> inserts that
  follow and have been sent by then are still run by the server; the callbacks of the
  others are left waiting for their hash and send their insert later, whatever the
  caller has done in between.
\<close>

fun Promise_all_hashed :: "env \<Rightarrow> nat \<Rightarrow> stmt list \<Rightarrow> client \<Rightarrow> sql_error option \<times> client" where
  "Promise_all_hashed e n [] c = (None, c)"
| "Promise_all_hashed e n (q # qs) c =
     (case sql e q c of
        (None, c1) \<Rightarrow> Promise_all_hashed e n qs c1
      | (Some err, c1) \<Rightarrow>
          (Some err, (snd (Promise_all e (take n qs) c1))\<lparr>waiting := drop n qs\<rparr>))"

text \<open>The callbacks still waiting send their inserts; nobody awaits the answers.\<close>

definition settle :: "env \<Rightarrow> client \<Rightarrow> client" where
  "settle e c = (snd (Promise_all e (waiting c) c))\<lparr>waiting := []\<rparr>"

section \<open>The seed route\<close>

text \<open>
  Each group is translated statement by statement; a group's result is \<open>None\<close> when its
  promise resolves (the array of query results it resolves to is never read by \<^verbatim>\<open>GET\<close>)
  and \<open>Some err\<close> when it throws. In \<^verbatim>\<open>seedUsers\<close>, \<^verbatim>\<open>users.map\<close> starts the calls
  \<^verbatim>\<open>bcrypt.hash(user.password, 10)\<close> in the order of the fixture, the \<open>k\<close>-th call of the
  process for the first user; each insert carries the hash in place of the password.
\<close>

definition insert_user :: "env \<Rightarrow> nat \<times> User \<Rightarrow> stmt" where
  "insert_user e ku =
     INSERT_users (user_id (snd ku)) (user_name (snd ku)) (user_email (snd ku))
       (bcrypt_hash e (fst ku) (user_password (snd ku)) 10)"

definition insert_users :: "env \<Rightarrow> nat \<Rightarrow> User list \<Rightarrow> stmt list" where
  "insert_users e k us = map (insert_user e) (zip [k ..< k + length us] us)"

definition seedUsers :: "env \<Rightarrow> User list \<Rightarrow> client \<Rightarrow> sql_error option \<times> client" where
  "seedUsers e us c =
     await (sql e CREATE_EXTENSION c) (\<lambda>c1.
     await (sql e CREATE_TABLE_users c1) (\<lambda>c2.
     Promise_all_hashed e (in_flight e (hashed c2))
       (arrange (hash_order e (hashed c2)) (insert_users e (hashed c2) us))
       (c2\<lparr>hashed := hashed c2 + length us\<rparr>)))"

definition insert_invoice :: "Invoice \<Rightarrow> stmt" where
  "insert_invoice invoice =
     INSERT_invoices (invoice_customer_id invoice) (invoice_amount invoice)
       (status_text (invoice_status invoice)) (invoice_date invoice)"

definition seedInvoices :: "env \<Rightarrow> Invoice list \<Rightarrow> client \<Rightarrow> sql_error option \<times> client" where
  "seedInvoices e ivs c =
     await (sql e CREATE_EXTENSION c) (\<lambda>c1.
     await (sql e CREATE_TABLE_invoices c1) (\<lambda>c2.
     Promise_all e (map insert_invoice ivs) c2))"

definition insert_customer :: "Customer \<Rightarrow> stmt" where
  "insert_customer customer =
     INSERT_customers (customer_id customer) (customer_name customer)
       (customer_email customer) (customer_image_url customer)"

definition seedCustomers :: "env \<Rightarrow> Customer list \<Rightarrow> client \<Rightarrow> sql_error option \<times> client" where
  "seedCustomers e cs c =
     await (sql e CREATE_EXTENSION c) (\<lambda>c1.
     await (sql e CREATE_TABLE_customers c1) (\<lambda>c2.
     Promise_all e (map insert_customer cs) c2))"

definition insert_revenue :: "Revenue \<Rightarrow> stmt" where
  "insert_revenue r = INSERT_revenue (revenue_month r) (revenue_revenue r)"

definition seedRevenue :: "env \<Rightarrow> Revenue list \<Rightarrow> client \<Rightarrow> sql_error option \<times> client" where
  "seedRevenue e rs c =
     await (sql e CREATE_TABLE_revenue c) (\<lambda>c1.
     Promise_all e (map insert_revenue rs) c1)"

text \<open>
  \<^verbatim>\<open>GET\<close>: the body of the \<^verbatim>\<open>try\<close> block is \<open>GET_try\<close>; the handler sends
  \<^verbatim>\<open>ROLLBACK\<close> and, when that resolves, answers with the caught error and status 500.
  A rejected \<^verbatim>\<open>ROLLBACK\<close> is not caught: the promise \<^verbatim>\<open>GET\<close> returned rejects. The
  state \<^verbatim>\<open>GET\<close> returns is the one in which its promise settles; callbacks of
  \<^verbatim>\<open>seedUsers\<close> still waiting then are in \<open>waiting\<close> and run afterwards (\<open>settle\<close>).
\<close>

datatype json = message string | error sql_error

datatype Response = Response_json json nat

datatype outcome = Returns Response | Throws sql_error

definition GET_try :: "env \<Rightarrow> placeholder_data \<Rightarrow> client \<Rightarrow> sql_error option \<times> client" where
  "GET_try e d c =
     await (sql e BEGIN c) (\<lambda>c1.
     await (seedUsers e (users d) c1) (\<lambda>c2.
     await (seedCustomers e (customers d) c2) (\<lambda>c3.
     await (seedInvoices e (invoices d) c3) (\<lambda>c4.
     await (seedRevenue e (revenue d) c4) (\<lambda>c5.
     sql e COMMIT c5)))))"

definition GET :: "env \<Rightarrow> placeholder_data \<Rightarrow> client \<Rightarrow> outcome \<times> client" where
  "GET e d c =
     (case GET_try e d c of
        (None, c1) \<Rightarrow> (Returns (Response_json (message ''Database seeded successfully'') 200), c1)
      | (Some err, c1) \<Rightarrow>
          (case sql e ROLLBACK c1 of
             (Some err2, c2) \<Rightarrow> (Throws err2, c2)
           | (None, c2) \<Rightarrow> (Returns (Response_json (error err) 500), c2)))"

section \<open>Auxiliary definitions\<close>

text \<open>
  The data statements the groups send for the fixture \<open>d\<close>, and the four groups in the
  order of \<open>GET_try\<close>, between \<^verbatim>\<open>BEGIN\<close> and \<^verbatim>\<open>COMMIT\<close>.
\<close>

definition data_stmts :: "env \<Rightarrow> placeholder_data \<Rightarrow> stmt set" where
  "data_stmts e d =
     {CREATE_EXTENSION, CREATE_TABLE_users, CREATE_TABLE_customers, CREATE_TABLE_invoices,
      CREATE_TABLE_revenue}
     \<union> insert_user e ` (UNIV \<times> set (users d))
     \<union> insert_customer ` set (customers d)
     \<union> insert_invoice ` set (invoices d)
     \<union> insert_revenue ` set (revenue d)"

definition seed_groups :: "env \<Rightarrow> placeholder_data \<Rightarrow> client \<Rightarrow> sql_error option \<times> client" where
  "seed_groups e d c =
     await (seedUsers e (users d) c) (\<lambda>c2.
     await (seedCustomers e (customers d) c2) (\<lambda>c3.
     await (seedInvoices e (invoices d) c3) (\<lambda>c4.
     seedRevenue e (revenue d) c4)))"

text \<open>The statements of a group, in the order in which the group sends them.\<close>

definition customers_stmts :: "Customer list \<Rightarrow> stmt list" where
  "customers_stmts cs = [CREATE_EXTENSION, CREATE_TABLE_customers] @ map insert_customer cs"

definition invoices_stmts :: "Invoice list \<Rightarrow> stmt list" where
  "invoices_stmts ivs = [CREATE_EXTENSION, CREATE_TABLE_invoices] @ map insert_invoice ivs"

definition revenue_stmts :: "Revenue list \<Rightarrow> stmt list" where
  "revenue_stmts rs = CREATE_TABLE_revenue # map insert_revenue rs"



text \<open>The success response of \<^verbatim>\<open>GET\<close>.\<close>

definition seeded :: Response where
  "seeded = Response_json (message ''Database seeded successfully'') 200"

text \<open>
  \<open>accepts e q\<close>: the column types accept the values of the insert \<open>q\<close>.
  \<open>conflicts e g q t\<close>: the row of the insert \<open>q\<close> has the value of its \<^verbatim>\<open>ON CONFLICT\<close>
  target (the id, generated for \<^verbatim>\<open>invoices\<close>; the month for \<^verbatim>\<open>revenue\<close>) in common with
  a row of its table.
\<close>

fun accepts :: "env \<Rightarrow> stmt \<Rightarrow> bool" where
  "accepts e (INSERT_users i n em pw) = (users_row e i n em pw \<noteq> None)"
| "accepts e (INSERT_customers i n em img) = (customers_row e i n em img \<noteq> None)"
| "accepts e (INSERT_invoices cid amt st dt) = (invoices_row e [] cid amt st dt \<noteq> None)"
| "accepts e (INSERT_revenue m r) = (revenue_row m r \<noteq> None)"
| "accepts e q = True"

fun conflicts :: "env \<Rightarrow> string \<Rightarrow> stmt \<Rightarrow> tables \<Rightarrow> bool" where
  "conflicts e g (INSERT_users i n em pw) t =
     (case users_row e i n em pw of
        None \<Rightarrow> False
      | Some r \<Rightarrow> user_id r \<in> set (map user_id (rows (users_t t))))"
| "conflicts e g (INSERT_customers i n em img) t =
     (case customers_row e i n em img of
        None \<Rightarrow> False
      | Some r \<Rightarrow> customer_id r \<in> set (map customer_id (rows (customers_t t))))"
| "conflicts e g (INSERT_invoices cid amt st dt) t = (g \<in> set (map row_id (rows (invoices_t t))))"
| "conflicts e g (INSERT_revenue m r) t =
     (case revenue_row m r of
        None \<Rightarrow> False
      | Some r' \<Rightarrow> revenue_month r' \<in> set (map revenue_month (rows (revenue_t t))))"
| "conflicts e g q t = False"

subsection \<open>Predicates on logs and tables\<close>

text \<open>Two inserts into the same table: statements of one \<^verbatim>\<open>Promise.all\<close>.\<close>

fun same_batch :: "stmt \<Rightarrow> stmt \<Rightarrow> bool" where
  "same_batch (INSERT_users i n em pw) (INSERT_users i' n' em' pw') = True"
| "same_batch (INSERT_customers i n em img) (INSERT_customers i' n' em' img') = True"
| "same_batch (INSERT_invoices cid amt st dt) (INSERT_invoices cid' amt' st' dt') = True"
| "same_batch (INSERT_revenue m r) (INSERT_revenue m' r') = True"
| "same_batch q q' = False"

text \<open>
  The first rejection among a list of answers, and: every statement sent after the
  first rejected one is an insert of the same batch.
\<close>

fun first_error :: "sql_error option list \<Rightarrow> sql_error option" where
  "first_error [] = None"
| "first_error (None # as) = first_error as"
| "first_error (Some err # as) = Some err"

fun stops_at_error :: "stmt list \<Rightarrow> sql_error option list \<Rightarrow> bool" where
  "stops_at_error [] as = True"
| "stops_at_error (q # qs) [] = True"
| "stops_at_error (q # qs) (None # as) = stops_at_error qs as"
| "stops_at_error (q # qs) (Some err # as) = list_all (same_batch q) qs"

text \<open>
  \<open>ran F c r\<close>: started in the state \<open>c\<close>, the step with result \<open>r\<close> has sent the
  statements \<open>F\<close> in this order, all of them if it resolved; it threw the first rejection
  it was answered, and then nothing was sent but what was left of the batch of the
  rejected statement, of which \<open>waiting\<close> holds the inserts that are sent later.
\<close>

definition ran :: "stmt list \<Rightarrow> client \<Rightarrow> sql_error option \<times> client \<Rightarrow> bool" where
  "ran F c r \<longleftrightarrow>
     (\<exists>p ans. sent (snd r) = sent c @ p \<and> answered (snd r) = answered c @ ans
        \<and> length ans = length p \<and> fst r = first_error ans \<and> stops_at_error p ans
        \<and> prefix (p @ waiting (snd r)) F
        \<and> (fst r = None \<longrightarrow> p = F \<and> waiting (snd r) = []))"

text \<open>
  Every invoice id in the table is one the server drew for an earlier statement of the
  log.
\<close>

definition generated_ids :: "env \<Rightarrow> client \<Rightarrow> bool" where
  "generated_ids e c \<longleftrightarrow>
     (\<forall>r\<in>set (rows (invoices_t (cur c))). \<exists>k<length (sent c). row_id r = uuid_generate_v4 e k)"

subsection \<open>Concrete collaborators and fixtures\<close>

text \<open>
  A reader of UUIDs in the manner of the server: sixteen bytes of two hexadecimal digits
  in either case, a hyphen allowed after every second byte, braces allowed around the
  whole; the value is spelled in lower case with four hyphens. And a reader of dates
  that takes the spelling \<^verbatim>\<open>YYYY-MM-DD\<close>.
\<close>

definition hex_lower :: "char \<Rightarrow> char option" where
  "hex_lower ch =
     (if ch \<in> set ''0123456789abcdef'' then Some ch
      else map_of (zip ''ABCDEF'' ''abcdef'') ch)"

fun uuid_bytes :: "bool list \<Rightarrow> string \<Rightarrow> string option" where
  "uuid_bytes [] s = (if s = [] then Some [] else None)"
| "uuid_bytes (h # hs) (a # b # s) =
     (case hex_lower a of
        None \<Rightarrow> None
      | Some x \<Rightarrow>
          (case hex_lower b of
             None \<Rightarrow> None
           | Some y \<Rightarrow>
               (case uuid_bytes hs (if h \<and> take 1 s = ''-'' then drop 1 s else s) of
                  None \<Rightarrow> None
                | Some ds \<Rightarrow> Some (x # y # ds))))"
| "uuid_bytes (h # hs) s = None"

definition uuid_text_in :: "string \<Rightarrow> string option" where
  "uuid_text_in s =
     (let hyphens = [False, True, False, True, False, True, False, True, False, True,
            False, True, False, True, False, False];
          digits =
            (if take 1 s = ''{''
             then (if last s = CHR ''}'' then uuid_bytes hyphens (butlast (drop 1 s)) else None)
             else uuid_bytes hyphens s)
      in case digits of
           None \<Rightarrow> None
         | Some ds \<Rightarrow>
             Some (take 8 ds @ ''-'' @ take 4 (drop 8 ds) @ ''-'' @ take 4 (drop 12 ds) @ ''-''
               @ take 4 (drop 16 ds) @ ''-'' @ drop 20 ds))"

definition date_text_in :: "string \<Rightarrow> string option" where
  "date_text_in s =
     (if length s = 10 \<and> take 1 (drop 4 s) = ''-'' \<and> take 1 (drop 7 s) = ''-''
        \<and> list_all (\<lambda>ch. ch \<in> set ''0123456789'') (take 4 s @ take 2 (drop 5 s) @ drop 8 s)
      then Some s else None)"

text \<open>
  An environment in which no statement is rejected from outside, the server draws a
  different UUID for each of the first 256 statements, the hash primitive is a stand-in
  that prefixes its input, the hashes resolve in the order of the fixture and no further
  insert has been sent when a rejection is reported. \<open>failing_at ns\<close> rejects the
  statements whose position in the log is in \<open>ns\<close>; \<open>sent_ahead n\<close> has \<open>n\<close> further
  inserts sent when a rejection is reported.
\<close>

definition quiet_env :: env where
  "quiet_env = \<lparr>fault = (\<lambda>n. None),
     uuid_in = uuid_text_in,
     date_in = date_text_in,
     uuid_generate_v4 = (\<lambda>n. ''00000000-0000-4000-8000-0000000000'' @
        [''0123456789abcdef'' ! (n div 16 mod 16), ''0123456789abcdef'' ! (n mod 16)]),
     bcrypt_hash = (\<lambda>k data rounds. ''$2b$10$'' @ data),
     bcrypt_compare = (\<lambda>data h. h = ''$2b$10$'' @ data),
     hash_order = (\<lambda>k. []),
     in_flight = (\<lambda>k. 0)\<rparr>"

definition failing_at :: "nat list \<Rightarrow> env" where
  "failing_at ns = quiet_env\<lparr>fault :=
     (\<lambda>n. if n \<in> set ns then Some (failure ''Connection terminated unexpectedly'') else None)\<rparr>"

definition sent_ahead :: "nat \<Rightarrow> env" where
  "sent_ahead n = quiet_env\<lparr>in_flight := (\<lambda>k. n)\<rparr>"

definition one_user :: User where
  "one_user = \<lparr>user_id = ''410544b2-4001-4271-9855-fec4b6a6442a'', user_name = ''User'',
     user_email = ''user@nextmail.com'', user_password = ''123456''\<rparr>"

definition one_customer :: Customer where
  "one_customer = \<lparr>customer_id = ''d6e15727-9fe1-4961-8c5b-ea44a9bd81aa'',
     customer_name = ''Evil Rabbit'', customer_email = ''evil@rabbit.com'',
     customer_image_url = ''/customers/evil-rabbit.png''\<rparr>"

definition one_invoice :: Invoice where
  "one_invoice = \<lparr>invoice_id = ''1b9d6bcd-bbfd-4b2d-9b5d-ab8dfbbd4bed'',
     invoice_customer_id = ''d6e15727-9fe1-4961-8c5b-ea44a9bd81aa'',
     invoice_amount = 15795, invoice_date = ''2022-12-06'', invoice_status = pending\<rparr>"

definition one_of_each :: placeholder_data where
  "one_of_each = \<lparr>users = [one_user], customers = [one_customer], invoices = [one_invoice],
     revenue = [\<lparr>revenue_month = ''Jan'', revenue_revenue = 2000\<rparr>]\<rparr>"

text \<open>A second user with another id and the email of the first.\<close>

definition other_user :: User where
  "other_user = one_user\<lparr>user_id := ''3958dc9e-712f-4377-85e9-fec4b6a6442a'', user_name := ''Other''\<rparr>"

definition same_email :: placeholder_data where
  "same_email = one_of_each\<lparr>users := [one_user, other_user]\<rparr>"

text \<open>An invoice whose customer is not in the fixture.\<close>

definition no_customers :: placeholder_data where
  "no_customers = one_of_each\<lparr>customers := []\<rparr>"

text \<open>
  The one-record fixture after it has grown: the second user with the email of the
  first, and five more users.
\<close>

definition more_user :: "char \<Rightarrow> User" where
  "more_user ch = \<lparr>user_id = ''76d65c26-f784-44a2-ac19-586678f7c2f'' @ [ch],
     user_name = ''User '' @ [ch], user_email = ''user'' @ [ch] @ ''@nextmail.com'',
     user_password = ''123456''\<rparr>"

definition grown :: placeholder_data where
  "grown = one_of_each\<lparr>users := [one_user, other_user] @ map more_user ''12345''\<rparr>"

section \<open>Lemmas\<close>

subsection \<open>Awaiting, sending, batches\<close>

lemma await_None [simp]: "await (None, c) k = k c"
  by (simp add: await_def)

lemma await_Some [simp]: "await (Some err, c) k = (Some err, c)"
  by (simp add: await_def)

lemma await_assoc: "await (await r k1) k2 = await r (\<lambda>c. await (k1 c) k2)"
  by (cases r) (auto simp: await_def split: option.splits)

lemma await_eq_None:
  "await r k = (None, c') \<longleftrightarrow> (\<exists>c1. r = (None, c1) \<and> k c1 = (None, c'))"
  by (cases r) (auto simp: await_def split: option.splits)

lemma snd_await: "snd (await r k) = snd r \<or> snd (await r k) = snd (k (snd r))"
  by (cases r) (auto simp: await_def split: option.splits)

lemma logged_simps [simp]:
  "sent (logged q r c) = sent c @ [q]"
  "answered (logged q r c) = answered c @ [r]"
  "cur (logged q r c) = cur c"
  "txn (logged q r c) = txn c"
  "hashed (logged q r c) = hashed c"
  "waiting (logged q r c) = waiting c"
  by (simp_all add: logged_def)

lemma sent_sql [simp]: "sent (snd (sql e q c)) = sent c @ [q]"
  by (simp add: sql_def split: option.splits prod.splits)

lemma answered_sql [simp]: "answered (snd (sql e q c)) = answered c @ [fst (sql e q c)]"
  by (simp add: sql_def split: option.splits prod.splits)

lemma hashed_sql [simp]: "hashed (snd (sql e q c)) = hashed c"
  by (simp add: sql_def split: option.splits prod.splits)

lemma waiting_sql [simp]: "waiting (snd (sql e q c)) = waiting c"
  by (simp add: sql_def split: option.splits prod.splits)

lemma sql_eqD:
  "sql e q c = (r, c1) \<Longrightarrow>
     sent c1 = sent c @ [q] \<and> answered c1 = answered c @ [r] \<and> hashed c1 = hashed c
     \<and> waiting c1 = waiting c"
  using sent_sql [of e q c] answered_sql [of e q c] hashed_sql [of e q c] waiting_sql [of e q c]
  by simp

lemma snd_Promise_all_Cons:
  "snd (Promise_all e (q # qs) c) = snd (Promise_all e qs (snd (sql e q c)))"
  by (simp split: prod.splits)

lemma fst_Promise_all_Cons:
  "fst (Promise_all e (q # qs) c) = None \<longleftrightarrow>
     fst (sql e q c) = None \<and> fst (Promise_all e qs (snd (sql e q c))) = None"
  by (auto split: prod.splits option.splits)

lemma sent_Promise_all [simp]: "sent (snd (Promise_all e qs c)) = sent c @ qs"
  by (induction qs arbitrary: c) (simp_all add: snd_Promise_all_Cons del: Promise_all.simps(2))

lemma hashed_Promise_all [simp]: "hashed (snd (Promise_all e qs c)) = hashed c"
  by (induction qs arbitrary: c) (simp_all add: snd_Promise_all_Cons del: Promise_all.simps(2))

lemma waiting_Promise_all [simp]: "waiting (snd (Promise_all e qs c)) = waiting c"
  by (induction qs arbitrary: c) (simp_all add: snd_Promise_all_Cons del: Promise_all.simps(2))

lemma mset_arrange [simp]: "mset (arrange ps xs) = mset xs"
proof (induction ps xs rule: arrange.induct)
  case (3 p ps x xs)
  let ?r = "arrange ps xs"
  let ?i = "p mod Suc (length ?r)"
  have "mset (take ?i ?r) + mset (drop ?i ?r) = mset ?r"
    by (metis append_take_drop_id mset_append)
  with 3 show ?case by (simp add: Let_def)
qed simp_all

lemma set_arrange [simp]: "set (arrange ps xs) = set xs"
  using mset_arrange [of ps xs] by (metis set_mset_mset)

lemma Promise_all_hashed_Cons:
  "Promise_all_hashed e n (q # qs) c =
     (if fst (sql e q c) = None then Promise_all_hashed e n qs (snd (sql e q c))
      else (fst (sql e q c),
            (snd (Promise_all e (take n qs) (snd (sql e q c))))\<lparr>waiting := drop n qs\<rparr>))"
  by (cases "sql e q c") (auto split: option.splits)

subsection \<open>Invariants of the four groups\<close>

lemma GET_try_groups:
  "GET_try e d c = await (sql e BEGIN c) (\<lambda>c1. await (seed_groups e d c1) (sql e COMMIT))"
  by (simp add: GET_try_def seed_groups_def await_assoc)

lemma insert_users_data: "q \<in> set (insert_users e k (users d)) \<Longrightarrow> q \<in> data_stmts e d"
  by (auto simp: insert_users_def data_stmts_def dest!: set_zip_rightD)

text \<open>
  An invariant \<open>P b c\<close> of the state \<open>c\<close>, where \<open>b\<close> says that no statement has failed
  so far: if every data statement keeps it, every group keeps it.
\<close>

lemma await_flag:
  assumes "P (fst r = None) (snd r)"
    and "\<And>c. P True c \<Longrightarrow> P (fst (k c) = None) (snd (k c))"
  shows "P (fst (await r k) = None) (snd (await r k))"
proof (cases r)
  case (Pair x c)
  show ?thesis
  proof (cases x)
    case None
    with Pair assms show ?thesis by simp
  next
    case (Some err)
    with Pair assms(1) show ?thesis by simp
  qed
qed

lemma Promise_all_flag:
  assumes "\<And>q c b. q \<in> set qs \<Longrightarrow> P b c \<Longrightarrow> P (b \<and> fst (sql e q c) = None) (snd (sql e q c))"
    and "P b c"
  shows "P (b \<and> fst (Promise_all e qs c) = None) (snd (Promise_all e qs c))"
  using assms
proof (induction qs arbitrary: b c)
  case Nil
  then show ?case by simp
next
  case (Cons q qs)
  have "P (b \<and> fst (sql e q c) = None) (snd (sql e q c))"
    using Cons.prems by simp
  then have "P ((b \<and> fst (sql e q c) = None) \<and> fst (Promise_all e qs (snd (sql e q c))) = None)
      (snd (Promise_all e qs (snd (sql e q c))))"
    by (rule Cons.IH [rotated]) (rule Cons.prems(1), simp_all)
  then show ?case
    by (simp only: snd_Promise_all_Cons fst_Promise_all_Cons conj_assoc)
qed

lemma Promise_all_flag_True:
  assumes "\<And>q c b. q \<in> set qs \<Longrightarrow> P b c \<Longrightarrow> P (b \<and> fst (sql e q c) = None) (snd (sql e q c))"
    and "P True c"
  shows "P (fst (Promise_all e qs c) = None) (snd (Promise_all e qs c))"
  using Promise_all_flag [where P = P and b = True, OF assms] by simp

lemma Promise_all_hashed_flag:
  assumes step: "\<And>q c b. q \<in> set qs \<Longrightarrow> P b c \<Longrightarrow>
        P (b \<and> fst (sql e q c) = None) (snd (sql e q c))"
    and wait: "\<And>c ws. P False c \<Longrightarrow> set ws \<subseteq> set qs \<Longrightarrow> P False (c\<lparr>waiting := ws\<rparr>)"
    and "P True c"
  shows "P (fst (Promise_all_hashed e n qs c) = None) (snd (Promise_all_hashed e n qs c))"
  using assms
proof (induction qs arbitrary: c)
  case Nil
  then show ?case by simp
next
  case (Cons q qs)
  have 1: "P (fst (sql e q c) = None) (snd (sql e q c))"
    using Cons.prems(1) [of q True c] Cons.prems(3) by simp
  show ?case
  proof (cases "fst (sql e q c) = None")
    case True
    with 1 have "P True (snd (sql e q c))" by simp
    have "P (fst (Promise_all_hashed e n qs (snd (sql e q c))) = None)
        (snd (Promise_all_hashed e n qs (snd (sql e q c))))"
    proof (rule Cons.IH)
      show "P True (snd (sql e q c))" by fact
    next
      fix q' c' b assume "q' \<in> set qs" and "P b c'"
      then show "P (b \<and> fst (sql e q' c') = None) (snd (sql e q' c'))"
        by (intro Cons.prems(1)) simp_all
    next
      fix c' ws assume "P False c'" and "set ws \<subseteq> set qs"
      then show "P False (c'\<lparr>waiting := ws\<rparr>)"
        by (intro Cons.prems(2)) auto
    qed
    with True show ?thesis by (simp add: Promise_all_hashed_Cons del: Promise_all_hashed.simps)
  next
    case False
    with 1 have "P False (snd (sql e q c))" by simp
    then have "P (False \<and> fst (Promise_all e (take n qs) (snd (sql e q c))) = None)
        (snd (Promise_all e (take n qs) (snd (sql e q c))))"
      by (rule Promise_all_flag [where P = P, rotated])
        (rule Cons.prems(1), auto dest: in_set_takeD)
    then have "P False ((snd (Promise_all e (take n qs) (snd (sql e q c))))\<lparr>waiting := drop n qs\<rparr>)"
      by (intro Cons.prems(2)) (auto dest: in_set_dropD)
    with False show ?thesis
      by (auto simp add: Promise_all_hashed_Cons simp del: Promise_all_hashed.simps)
  qed
qed

lemma sql_flag_True:
  assumes "\<And>q c b. q \<in> data_stmts e d \<Longrightarrow> P b c \<Longrightarrow> P (b \<and> fst (sql e q c) = None) (snd (sql e q c))"
    and "q \<in> data_stmts e d" and "P True c"
  shows "P (fst (sql e q c) = None) (snd (sql e q c))"
  using assms(1) [OF assms(2,3)] by simp

lemma seedUsers_flag:
  assumes step: "\<And>q c b. q \<in> data_stmts e d \<Longrightarrow> P b c \<Longrightarrow>
        P (b \<and> fst (sql e q c) = None) (snd (sql e q c))"
    and hash: "\<And>c n. P True c \<Longrightarrow> P True (c\<lparr>hashed := n\<rparr>)"
    and wait: "\<And>c ws. P False c \<Longrightarrow> set ws \<subseteq> data_stmts e d \<Longrightarrow> P False (c\<lparr>waiting := ws\<rparr>)"
    and "P True c"
  shows "P (fst (seedUsers e (users d) c) = None) (snd (seedUsers e (users d) c))"
proof -
  have 1: "P (fst (sql e CREATE_EXTENSION c) = None) (snd (sql e CREATE_EXTENSION c))"
    by (rule sql_flag_True [where P = P, OF step _ \<open>P True c\<close>]) (simp_all add: data_stmts_def)
  have 2: "P (fst (sql e CREATE_TABLE_users c1) = None) (snd (sql e CREATE_TABLE_users c1))"
    if "P True c1" for c1
    by (rule sql_flag_True [where P = P, OF step _ that]) (simp_all add: data_stmts_def)
  have 3: "P (fst (Promise_all_hashed e m (arrange ps (insert_users e k (users d)))
        (c2\<lparr>hashed := n\<rparr>)) = None)
      (snd (Promise_all_hashed e m (arrange ps (insert_users e k (users d))) (c2\<lparr>hashed := n\<rparr>)))"
    if "P True c2" for c2 k n m ps
  proof (rule Promise_all_hashed_flag [where P = P])
    show "P True (c2\<lparr>hashed := n\<rparr>)" using that by (rule hash)
  next
    fix q c b assume "q \<in> set (arrange ps (insert_users e k (users d)))" and "P b c"
    then show "P (b \<and> fst (sql e q c) = None) (snd (sql e q c))"
      by (intro step) (auto dest: insert_users_data)
  next
    fix c ws assume "P False c" and "set ws \<subseteq> set (arrange ps (insert_users e k (users d)))"
    then show "P False (c\<lparr>waiting := ws\<rparr>)"
      by (intro wait) (auto dest: insert_users_data)
  qed
  show ?thesis
    unfolding seedUsers_def
    by (rule await_flag [where P = P, OF 1], rule await_flag [where P = P, OF 2], assumption, rule 3)
qed

lemma seedCustomers_flag:
  assumes step: "\<And>q c b. q \<in> data_stmts e d \<Longrightarrow> P b c \<Longrightarrow>
        P (b \<and> fst (sql e q c) = None) (snd (sql e q c))"
    and "P True c"
  shows "P (fst (seedCustomers e (customers d) c) = None) (snd (seedCustomers e (customers d) c))"
proof -
  have 1: "P (fst (sql e CREATE_EXTENSION c) = None) (snd (sql e CREATE_EXTENSION c))"
    by (rule sql_flag_True [where P = P, OF step _ \<open>P True c\<close>]) (simp_all add: data_stmts_def)
  have 2: "P (fst (sql e CREATE_TABLE_customers c1) = None) (snd (sql e CREATE_TABLE_customers c1))"
    if "P True c1" for c1
    by (rule sql_flag_True [where P = P, OF step _ that]) (simp_all add: data_stmts_def)
  have 3: "P (fst (Promise_all e (map insert_customer (customers d)) c2) = None)
      (snd (Promise_all e (map insert_customer (customers d)) c2))"
    if "P True c2" for c2
    by (rule Promise_all_flag_True [where P = P]) (auto intro: step that simp: data_stmts_def)
  show ?thesis
    unfolding seedCustomers_def
    by (rule await_flag [where P = P, OF 1], rule await_flag [where P = P, OF 2], assumption, rule 3)
qed

lemma seedInvoices_flag:
  assumes step: "\<And>q c b. q \<in> data_stmts e d \<Longrightarrow> P b c \<Longrightarrow>
        P (b \<and> fst (sql e q c) = None) (snd (sql e q c))"
    and "P True c"
  shows "P (fst (seedInvoices e (invoices d) c) = None) (snd (seedInvoices e (invoices d) c))"
proof -
  have 1: "P (fst (sql e CREATE_EXTENSION c) = None) (snd (sql e CREATE_EXTENSION c))"
    by (rule sql_flag_True [where P = P, OF step _ \<open>P True c\<close>]) (simp_all add: data_stmts_def)
  have 2: "P (fst (sql e CREATE_TABLE_invoices c1) = None) (snd (sql e CREATE_TABLE_invoices c1))"
    if "P True c1" for c1
    by (rule sql_flag_True [where P = P, OF step _ that]) (simp_all add: data_stmts_def)
  have 3: "P (fst (Promise_all e (map insert_invoice (invoices d)) c2) = None)
      (snd (Promise_all e (map insert_invoice (invoices d)) c2))"
    if "P True c2" for c2
    by (rule Promise_all_flag_True [where P = P]) (auto intro: step that simp: data_stmts_def)
  show ?thesis
    unfolding seedInvoices_def
    by (rule await_flag [where P = P, OF 1], rule await_flag [where P = P, OF 2], assumption, rule 3)
qed

lemma seedRevenue_flag:
  assumes step: "\<And>q c b. q \<in> data_stmts e d \<Longrightarrow> P b c \<Longrightarrow>
        P (b \<and> fst (sql e q c) = None) (snd (sql e q c))"
    and "P True c"
  shows "P (fst (seedRevenue e (revenue d) c) = None) (snd (seedRevenue e (revenue d) c))"
proof -
  have 1: "P (fst (sql e CREATE_TABLE_revenue c) = None) (snd (sql e CREATE_TABLE_revenue c))"
    by (rule sql_flag_True [where P = P, OF step _ \<open>P True c\<close>]) (simp_all add: data_stmts_def)
  have 3: "P (fst (Promise_all e (map insert_revenue (revenue d)) c2) = None)
      (snd (Promise_all e (map insert_revenue (revenue d)) c2))"
    if "P True c2" for c2
    by (rule Promise_all_flag_True [where P = P]) (auto intro: step that simp: data_stmts_def)
  show ?thesis
    unfolding seedRevenue_def
    by (rule await_flag [where P = P, OF 1], rule 3)
qed

lemma seed_groups_flag:
  assumes step: "\<And>q c b. q \<in> data_stmts e d \<Longrightarrow> P b c \<Longrightarrow>
        P (b \<and> fst (sql e q c) = None) (snd (sql e q c))"
    and hash: "\<And>c n. P True c \<Longrightarrow> P True (c\<lparr>hashed := n\<rparr>)"
    and wait: "\<And>c ws. P False c \<Longrightarrow> set ws \<subseteq> data_stmts e d \<Longrightarrow> P False (c\<lparr>waiting := ws\<rparr>)"
    and "P True c"
  shows "P (fst (seed_groups e d c) = None) (snd (seed_groups e d c))"
  unfolding seed_groups_def
  apply (rule await_flag [where P = P])
   apply (rule seedUsers_flag [where P = P, OF step hash wait \<open>P True c\<close>]; assumption)
  apply (rule await_flag [where P = P])
   apply (rule seedCustomers_flag [where P = P, OF step]; assumption)
  apply (rule await_flag [where P = P])
   apply (rule seedInvoices_flag [where P = P, OF step]; assumption)
  apply (rule seedRevenue_flag [where P = P, OF step]; assumption)
  done

text \<open>The same for an invariant that does not depend on success.\<close>

lemma seed_groups_inv:
  assumes step: "\<And>q c. q \<in> data_stmts e d \<Longrightarrow> P c \<Longrightarrow> P (snd (sql e q c))"
    and hash: "\<And>c n. P c \<Longrightarrow> P (c\<lparr>hashed := n\<rparr>)"
    and wait: "\<And>c ws. P c \<Longrightarrow> set ws \<subseteq> data_stmts e d \<Longrightarrow> P (c\<lparr>waiting := ws\<rparr>)"
    and "P c"
  shows "P (snd (seed_groups e d c))"
  by (rule seed_groups_flag [where P = "\<lambda>b. P"]) (auto intro: assms)

subsection \<open>The shape of one statement\<close>

lemma server_data:
  "\<not> is_control q \<Longrightarrow> server e g q t x =
     (if aborted x then (Some in_failed_sql_transaction, t, x)
      else case exec e g q t of
             Inl err \<Rightarrow> (Some err, t, fail_txn x)
           | Inr t' \<Rightarrow> (None, t', x))"
  by (cases q) (simp_all add: server_def del: exec.simps)

lemma sql_data:
  "\<not> is_control q \<Longrightarrow> sql e q c =
     (case fault e (length (sent c)) of
        Some err \<Rightarrow> (Some err, logged q (Some err) (c\<lparr>txn := fail_txn (txn c)\<rparr>))
      | None \<Rightarrow>
          if aborted (txn c) then (Some in_failed_sql_transaction, logged q (Some in_failed_sql_transaction) c)
          else case exec e (uuid_generate_v4 e (length (sent c))) q (cur c) of
                 Inl err \<Rightarrow> (Some err, logged q (Some err) (c\<lparr>txn := fail_txn (txn c)\<rparr>))
               | Inr t' \<Rightarrow> (None, logged q None (c\<lparr>cur := t'\<rparr>)))"
  by (simp add: sql_def server_data split: option.splits sum.splits)

lemma data_stmts_not_control: "q \<in> data_stmts e d \<Longrightarrow> \<not> is_control q"
  by (auto simp: data_stmts_def insert_user_def insert_customer_def insert_invoice_def
      insert_revenue_def)

lemma sql_BEGIN:
  "sql e BEGIN c =
     (case fault e (length (sent c)) of
        Some err \<Rightarrow> (Some err, logged BEGIN (Some err) (c\<lparr>txn := fail_txn (txn c)\<rparr>))
      | None \<Rightarrow>
          (case txn c of
             NoTxn \<Rightarrow> (None, logged BEGIN None (c\<lparr>txn := InTxn (cur c)\<rparr>))
           | InTxn s \<Rightarrow> (None, logged BEGIN None c)
           | Aborted s \<Rightarrow> (Some in_failed_sql_transaction,
               logged BEGIN (Some in_failed_sql_transaction) c)))"
  by (simp add: sql_def server_def split: option.splits txn_state.splits)

lemma sql_COMMIT:
  "sql e COMMIT c =
     (case fault e (length (sent c)) of
        Some err \<Rightarrow> (Some err, logged COMMIT (Some err) (c\<lparr>txn := fail_txn (txn c)\<rparr>))
      | None \<Rightarrow>
          (case txn c of
             NoTxn \<Rightarrow> (None, logged COMMIT None c)
           | InTxn s \<Rightarrow> (None, logged COMMIT None (c\<lparr>txn := NoTxn\<rparr>))
           | Aborted s \<Rightarrow> (None, logged COMMIT None (c\<lparr>cur := s, txn := NoTxn\<rparr>))))"
  by (simp add: sql_def server_def split: option.splits txn_state.splits)

lemma sql_ROLLBACK:
  "sql e ROLLBACK c =
     (case fault e (length (sent c)) of
        Some err \<Rightarrow> (Some err, logged ROLLBACK (Some err) (c\<lparr>txn := fail_txn (txn c)\<rparr>))
      | None \<Rightarrow> (None, logged ROLLBACK None (c\<lparr>cur := persisted c, txn := NoTxn\<rparr>)))"
  by (simp add: sql_def server_def persisted_def split: option.splits txn_state.splits)

lemma fst_sql_ROLLBACK: "fst (sql e ROLLBACK c) = fault e (length (sent c))"
  by (simp add: sql_ROLLBACK split: option.splits)

lemma sql_data_ok:
  assumes "\<not> is_control q" and "fst (sql e q c) = None"
  shows "\<not> aborted (txn c) \<and> txn (snd (sql e q c)) = txn c
    \<and> fault e (length (sent c)) = None
    \<and> exec e (uuid_generate_v4 e (length (sent c))) q (cur c) = Inr (cur (snd (sql e q c)))"
  using assms by (auto simp: sql_data split: option.splits sum.splits if_splits)

lemma sql_data_cur:
  assumes "\<not> is_control q"
  shows "cur (snd (sql e q c)) = cur c
    \<or> exec e (uuid_generate_v4 e (length (sent c))) q (cur c) = Inr (cur (snd (sql e q c)))"
  using assms by (auto simp: sql_data split: option.splits sum.splits)

subsection \<open>The shape of \<open>GET\<close>\<close>

lemma GET_ok: "GET_try e d c = (None, c1) \<Longrightarrow> GET e d c = (Returns seeded, c1)"
  by (simp add: GET_def seeded_def)

lemma GET_caught:
  "GET_try e d c = (Some err, c1) \<Longrightarrow> sql e ROLLBACK c1 = (None, c2) \<Longrightarrow>
     GET e d c = (Returns (Response_json (error err) 500), c2)"
  by (simp add: GET_def)

lemma GET_try_None_iff:
  "GET_try e d c = (None, c6) \<longleftrightarrow>
     (\<exists>c1 c2 c3 c4 c5. sql e BEGIN c = (None, c1) \<and> seedUsers e (users d) c1 = (None, c2)
        \<and> seedCustomers e (customers d) c2 = (None, c3)
        \<and> seedInvoices e (invoices d) c3 = (None, c4)
        \<and> seedRevenue e (revenue d) c4 = (None, c5) \<and> sql e COMMIT c5 = (None, c6))"
  by (simp add: GET_try_def await_eq_None)

lemma GET_seeded_iff: "fst (GET e d c) = Returns seeded \<longleftrightarrow> fst (GET_try e d c) = None"
  by (auto simp: GET_def seeded_def split: prod.splits option.splits)

lemma snd_GET:
  "snd (GET e d c) = snd (GET_try e d c)
    \<or> snd (GET e d c) = snd (sql e ROLLBACK (snd (GET_try e d c)))"
  by (auto simp: GET_def split: prod.splits option.splits)

text \<open>Unfolding everything evaluates the route on a concrete fixture.\<close>

lemmas seed_defs = GET_def GET_try_def seedUsers_def seedCustomers_def seedInvoices_def
  seedRevenue_def await_def sql_def server_def logged_def settle_def insert_users_def
  insert_user_def insert_customer_def insert_invoice_def insert_revenue_def users_row_def
  customers_row_def invoices_row_def revenue_row_def varchar_def int4_def uuid_text_in_def
  hex_lower_def date_text_in_def quiet_env_def failing_at_def sent_ahead_def fresh_client_def
  empty_tables_def row_count_def one_of_each_def one_user_def one_customer_def one_invoice_def
  other_user_def more_user_def same_email_def no_customers_def grown_def seeded_def
  persisted_def

section \<open>Claims\<close>

text \<open>
  Claim C10. If a step of the \<^verbatim>\<open>try\<close> block throws and the \<^verbatim>\<open>ROLLBACK\<close> of the
  handler fails as well, \<^verbatim>\<open>GET\<close> returns no response at all: the promise it returned
  rejects with the error of the \<^verbatim>\<open>ROLLBACK\<close>, and the error of the step is lost.
\<close>

theorem GET_rollback_failure_propagates:
  assumes "GET_try e d c = (Some err, c1)" and "sql e ROLLBACK c1 = (Some err2, c2)"
  shows "GET e d c = (Throws err2, c2) \<and> (\<forall>r. fst (GET e d c) \<noteq> Returns r)"
  using assms by (simp add: GET_def)

theorem GET_rollback_failure_propagates_witness:
  "fst (GET_try (failing_at [5]) same_email fresh_client) = Some (unique_violation ''users_email_key'')
   \<and> fst (sql (failing_at [5]) ROLLBACK (snd (GET_try (failing_at [5]) same_email fresh_client)))
        = Some (failure ''Connection terminated unexpectedly'')
   \<and> fst (GET (failing_at [5]) same_email fresh_client)
        = Throws (failure ''Connection terminated unexpectedly'')"
proof -
  have 1: "fst (GET_try (failing_at [5]) same_email fresh_client)
      = Some (unique_violation ''users_email_key'')"
    by (simp add: seed_defs)
  have 2: "fst (sql (failing_at [5]) ROLLBACK (snd (GET_try (failing_at [5]) same_email fresh_client)))
      = Some (failure ''Connection terminated unexpectedly'')"
    by (simp add: seed_defs)
  show ?thesis
    using 1 2 GET_rollback_failure_propagates [of "failing_at [5]" same_email fresh_client
        "unique_violation ''users_email_key''"
        "snd (GET_try (failing_at [5]) same_email fresh_client)"
        "failure ''Connection terminated unexpectedly''"
        "snd (sql (failing_at [5]) ROLLBACK (snd (GET_try (failing_at [5]) same_email fresh_client)))"]
    by (simp add: prod_eq_iff)
qed

text \<open>
  Claim C3, as amended. If \<^verbatim>\<open>BEGIN\<close>, the four seeding steps and \<^verbatim>\<open>COMMIT\<close> all resolve,
  the response is \<^verbatim>\<open>{ message: "Database seeded successfully" }\<close> with status 200. If one
  of them throws and the handler's \<^verbatim>\<open>ROLLBACK\<close> resolves, the response is
  \<^verbatim>\<open>{ error }\<close> with the error thrown and status 500. The \<^verbatim>\<open>try\<close> block throws exactly
  when not all six resolve.
\<close>

theorem GET_response:
  "(\<forall>c1 c2 c3 c4 c5 c6.
      sql e BEGIN c = (None, c1) \<and> seedUsers e (users d) c1 = (None, c2)
      \<and> seedCustomers e (customers d) c2 = (None, c3)
      \<and> seedInvoices e (invoices d) c3 = (None, c4)
      \<and> seedRevenue e (revenue d) c4 = (None, c5) \<and> sql e COMMIT c5 = (None, c6)
      \<longrightarrow> GET e d c = (Returns (Response_json (message ''Database seeded successfully'') 200), c6))
   \<and> (\<forall>err c1 c2.
      GET_try e d c = (Some err, c1) \<and> sql e ROLLBACK c1 = (None, c2)
      \<longrightarrow> GET e d c = (Returns (Response_json (error err) 500), c2))
   \<and> ((\<exists>err c1. GET_try e d c = (Some err, c1)) \<longleftrightarrow>
      \<not> (\<exists>c1 c2 c3 c4 c5 c6.
        sql e BEGIN c = (None, c1) \<and> seedUsers e (users d) c1 = (None, c2)
        \<and> seedCustomers e (customers d) c2 = (None, c3)
        \<and> seedInvoices e (invoices d) c3 = (None, c4)
        \<and> seedRevenue e (revenue d) c4 = (None, c5) \<and> sql e COMMIT c5 = (None, c6)))"
proof (intro conjI allI impI)
  fix c1 c2 c3 c4 c5 c6
  assume "sql e BEGIN c = (None, c1) \<and> seedUsers e (users d) c1 = (None, c2)
      \<and> seedCustomers e (customers d) c2 = (None, c3)
      \<and> seedInvoices e (invoices d) c3 = (None, c4)
      \<and> seedRevenue e (revenue d) c4 = (None, c5) \<and> sql e COMMIT c5 = (None, c6)"
  then have "GET_try e d c = (None, c6)"
    unfolding GET_try_None_iff by blast
  then show "GET e d c = (Returns (Response_json (message ''Database seeded successfully'') 200), c6)"
    by (simp add: GET_def)
next
  fix err c1 c2
  assume "GET_try e d c = (Some err, c1) \<and> sql e ROLLBACK c1 = (None, c2)"
  then show "GET e d c = (Returns (Response_json (error err) 500), c2)"
    by (simp add: GET_caught)
next
  have "(\<exists>err c1. GET_try e d c = (Some err, c1)) \<longleftrightarrow> \<not> (\<exists>c6. GET_try e d c = (None, c6))"
    by (cases "GET_try e d c") auto
  then show "(\<exists>err c1. GET_try e d c = (Some err, c1)) \<longleftrightarrow>
      \<not> (\<exists>c1 c2 c3 c4 c5 c6.
        sql e BEGIN c = (None, c1) \<and> seedUsers e (users d) c1 = (None, c2)
        \<and> seedCustomers e (customers d) c2 = (None, c3)
        \<and> seedInvoices e (invoices d) c3 = (None, c4)
        \<and> seedRevenue e (revenue d) c4 = (None, c5) \<and> sql e COMMIT c5 = (None, c6))"
    unfolding GET_try_None_iff by blast
qed

theorem GET_response_witness:
  "fst (GET quiet_env one_of_each fresh_client)
      = Returns (Response_json (message ''Database seeded successfully'') 200)
   \<and> fst (GET_try (failing_at [3]) one_of_each fresh_client)
      = Some (failure ''Connection terminated unexpectedly'')
   \<and> fst (GET (failing_at [3]) one_of_each fresh_client)
      = Returns (Response_json (error (failure ''Connection terminated unexpectedly'')) 500)"
proof -
  let ?c1 = "snd (sql quiet_env BEGIN fresh_client)"
  let ?c2 = "snd (seedUsers quiet_env (users one_of_each) ?c1)"
  let ?c3 = "snd (seedCustomers quiet_env (customers one_of_each) ?c2)"
  let ?c4 = "snd (seedInvoices quiet_env (invoices one_of_each) ?c3)"
  let ?c5 = "snd (seedRevenue quiet_env (revenue one_of_each) ?c4)"
  let ?c6 = "snd (sql quiet_env COMMIT ?c5)"
  have ok: "sql quiet_env BEGIN fresh_client = (None, ?c1)
      \<and> seedUsers quiet_env (users one_of_each) ?c1 = (None, ?c2)
      \<and> seedCustomers quiet_env (customers one_of_each) ?c2 = (None, ?c3)
      \<and> seedInvoices quiet_env (invoices one_of_each) ?c3 = (None, ?c4)
      \<and> seedRevenue quiet_env (revenue one_of_each) ?c4 = (None, ?c5)
      \<and> sql quiet_env COMMIT ?c5 = (None, ?c6)"
    by (simp add: prod_eq_iff) (simp add: seed_defs)
  let ?f = "failing_at [3]"
  let ?d1 = "snd (GET_try ?f one_of_each fresh_client)"
  have bad: "GET_try ?f one_of_each fresh_client
        = (Some (failure ''Connection terminated unexpectedly''), ?d1)
      \<and> sql ?f ROLLBACK ?d1 = (None, snd (sql ?f ROLLBACK ?d1))"
    by (simp add: prod_eq_iff) (simp add: seed_defs)
  have A: "GET quiet_env one_of_each fresh_client
      = (Returns (Response_json (message ''Database seeded successfully'') 200), ?c6)"
    using GET_response [of quiet_env fresh_client one_of_each] ok by blast
  have B: "GET ?f one_of_each fresh_client
      = (Returns (Response_json (error (failure ''Connection terminated unexpectedly'')) 500),
         snd (sql ?f ROLLBACK ?d1))"
    using GET_response [of ?f fresh_client one_of_each] bad by blast
  show ?thesis
    using A B bad by (simp add: prod_eq_iff)
qed

text \<open>
  The claim as stated fails in two places. With the one-record fixture, all four steps
  resolve and \<^verbatim>\<open>COMMIT\<close> (the statement at position 12) is rejected: the response is
  the 500 one. And when the first insert (position 3) and the \<^verbatim>\<open>ROLLBACK\<close> (position 4)
  are both rejected, there is no response.
\<close>

theorem GET_response_counterexample:
  "(\<exists>c1 c2 c3 c4 c5.
      sql (failing_at [12]) BEGIN fresh_client = (None, c1)
      \<and> seedUsers (failing_at [12]) (users one_of_each) c1 = (None, c2)
      \<and> seedCustomers (failing_at [12]) (customers one_of_each) c2 = (None, c3)
      \<and> seedInvoices (failing_at [12]) (invoices one_of_each) c3 = (None, c4)
      \<and> seedRevenue (failing_at [12]) (revenue one_of_each) c4 = (None, c5))
   \<and> fst (GET (failing_at [12]) one_of_each fresh_client)
      = Returns (Response_json (error (failure ''Connection terminated unexpectedly'')) 500)
   \<and> fst (seedUsers (failing_at [3, 4]) (users one_of_each)
        (snd (sql (failing_at [3, 4]) BEGIN fresh_client)))
      = Some (failure ''Connection terminated unexpectedly'')
   \<and> fst (GET (failing_at [3, 4]) one_of_each fresh_client)
      = Throws (failure ''Connection terminated unexpectedly'')"
  by (simp add: seed_defs)

text \<open>
  Claim C1 fails on the code. With one user, one customer, one invoice and one revenue
  month, the first invocation on the empty database answers with the success message and
  leaves one row in each table. The second invocation answers with the same message and
  leaves the users, customers and revenue counts unchanged, but the invoices table has
  two rows: its insert names no \<^verbatim>\<open>id\<close>, the server generates a new one, and
  \<^verbatim>\<open>ON CONFLICT (id) DO NOTHING\<close> finds nothing to skip.
\<close>

theorem seeding_twice_duplicates_invoices:
  "fst (GET quiet_env one_of_each fresh_client)
      = Returns (Response_json (message ''Database seeded successfully'') 200)
   \<and> row_count (users_t (cur (snd (GET quiet_env one_of_each fresh_client)))) = 1
   \<and> row_count (customers_t (cur (snd (GET quiet_env one_of_each fresh_client)))) = 1
   \<and> row_count (invoices_t (cur (snd (GET quiet_env one_of_each fresh_client)))) = 1
   \<and> row_count (revenue_t (cur (snd (GET quiet_env one_of_each fresh_client)))) = 1
   \<and> fst (GET quiet_env one_of_each (snd (GET quiet_env one_of_each fresh_client)))
      = Returns (Response_json (message ''Database seeded successfully'') 200)
   \<and> row_count (users_t (cur (snd (GET quiet_env one_of_each
        (snd (GET quiet_env one_of_each fresh_client)))))) = 1
   \<and> row_count (customers_t (cur (snd (GET quiet_env one_of_each
        (snd (GET quiet_env one_of_each fresh_client)))))) = 1
   \<and> row_count (invoices_t (cur (snd (GET quiet_env one_of_each
        (snd (GET quiet_env one_of_each fresh_client)))))) = 2
   \<and> row_count (revenue_t (cur (snd (GET quiet_env one_of_each
        (snd (GET quiet_env one_of_each fresh_client)))))) = 1
   \<and> map row_id (rows (invoices_t (cur (snd (GET quiet_env one_of_each
        (snd (GET quiet_env one_of_each fresh_client)))))))
      = [''00000000-0000-4000-8000-000000000009'', ''00000000-0000-4000-8000-000000000016'']"
  by (simp add: seed_defs)

text \<open>
  Claim C2. A failed invocation does not leave the tables as they were. The database holds
  the one-record fixture, committed by an earlier invocation. The fixture has grown since:
  a second user with the email of the first, and five more users. The insert of the
  second user violates the unique constraint on \<^verbatim>\<open>users.email\<close>; three more inserts have
  been sent when the rejection is reported, and the callbacks of the last two users are
  still waiting for their hashes. \<^verbatim>\<open>GET\<close> sends \<^verbatim>\<open>ROLLBACK\<close> and answers with the error and
  status 500. The two inserts that are sent afterwards run outside any transaction and
  are committed: the table \<^verbatim>\<open>users\<close> has three rows where it had one.
\<close>

theorem GET_failure_keeps_late_inserts:
  "waiting (snd (GET quiet_env one_of_each fresh_client)) = []
   \<and> txn (snd (GET quiet_env one_of_each fresh_client)) = NoTxn
   \<and> map user_name (rows (users_t (persisted (snd (GET quiet_env one_of_each fresh_client)))))
       = [''User'']
   \<and> fst (GET (sent_ahead 3) grown (snd (GET quiet_env one_of_each fresh_client)))
       = Returns (Response_json (error (unique_violation ''users_email_key'')) 500)
   \<and> last (sent (snd (GET (sent_ahead 3) grown (snd (GET quiet_env one_of_each fresh_client)))))
       = ROLLBACK
   \<and> waiting (snd (GET (sent_ahead 3) grown (snd (GET quiet_env one_of_each fresh_client))))
       = map (insert_user (sent_ahead 3)) [(6, more_user CHR ''4''), (7, more_user CHR ''5'')]
   \<and> txn (settle (sent_ahead 3)
        (snd (GET (sent_ahead 3) grown (snd (GET quiet_env one_of_each fresh_client))))) = NoTxn
   \<and> map user_name (rows (users_t (persisted (settle (sent_ahead 3)
        (snd (GET (sent_ahead 3) grown (snd (GET quiet_env one_of_each fresh_client))))))))
       = [''User'', ''User 4'', ''User 5'']
   \<and> row_count (users_t (persisted (settle (sent_ahead 3)
        (snd (GET (sent_ahead 3) grown (snd (GET quiet_env one_of_each fresh_client)))))))
       \<noteq> row_count (users_t (persisted (snd (GET quiet_env one_of_each fresh_client))))"
  by (simp add: seed_defs row_count_def persisted_def)

subsection \<open>Invariants of an invocation\<close>

text \<open>
  What every statement of the route keeps, \<^verbatim>\<open>GET\<close> keeps, whatever the outcome; and so
  do the inserts that are sent later.
\<close>

lemma GET_state_inv:
  assumes step: "\<And>q c. q \<in> data_stmts e d \<or> is_control q \<Longrightarrow> P c \<Longrightarrow> P (snd (sql e q c))"
    and hash: "\<And>c n. P c \<Longrightarrow> P (c\<lparr>hashed := n\<rparr>)"
    and wait: "\<And>c ws. P c \<Longrightarrow> set ws \<subseteq> data_stmts e d \<Longrightarrow> P (c\<lparr>waiting := ws\<rparr>)"
    and "P c"
  shows "P (snd (GET e d c))"
proof -
  have grp: "P (snd (seed_groups e d c'))" if "P c'" for c'
    by (rule seed_groups_inv [where P = P]) (use that step hash wait in auto)
  have 0: "P (snd (sql e BEGIN c))"
    using \<open>P c\<close> by (intro step) simp_all
  have 1: "P (snd (seed_groups e d (snd (sql e BEGIN c))))"
    using 0 by (rule grp)
  have 2: "P (snd (sql e COMMIT (snd (seed_groups e d (snd (sql e BEGIN c))))))"
    using 1 by (intro step) simp_all
  have tr: "P (snd (GET_try e d c))"
    unfolding GET_try_groups
    using 0 1 2
      snd_await [of "sql e BEGIN c" "\<lambda>c1. await (seed_groups e d c1) (sql e COMMIT)"]
      snd_await [of "seed_groups e d (snd (sql e BEGIN c))" "sql e COMMIT"]
    by auto
  then have "P (snd (sql e ROLLBACK (snd (GET_try e d c))))"
    by (intro step) simp_all
  with tr show ?thesis
    using snd_GET [of e d c] by auto
qed

lemma settle_state_inv:
  assumes step: "\<And>q c'. q \<in> set (waiting c) \<Longrightarrow> P c' \<Longrightarrow> P (snd (sql e q c'))"
    and wait: "\<And>c'. P c' \<Longrightarrow> P (c'\<lparr>waiting := []\<rparr>)"
    and "P c"
  shows "P (settle e c)"
proof -
  have "P (snd (Promise_all e (waiting c) c))"
    using Promise_all_flag [where P = "\<lambda>b. P" and qs = "waiting c" and e = e and c = c] step \<open>P c\<close>
    by blast
  then show ?thesis
    unfolding settle_def by (rule wait)
qed

lemma GET_waiting:
  assumes "set (waiting c) \<subseteq> data_stmts e d"
  shows "set (waiting (snd (GET e d c))) \<subseteq> data_stmts e d"
  by (rule GET_state_inv [where P = "\<lambda>c. set (waiting c) \<subseteq> data_stmts e d"])
    (use assms in simp_all)

lemma persisted_hashed [simp]: "persisted (c\<lparr>hashed := n\<rparr>) = persisted c"
  by (simp add: persisted_def split: txn_state.splits)

lemma persisted_waiting [simp]: "persisted (c\<lparr>waiting := ws\<rparr>) = persisted c"
  by (simp add: persisted_def split: txn_state.splits)

lemma persisted_logged [simp]: "persisted (logged q r c) = persisted c"
  by (simp add: persisted_def logged_def split: txn_state.splits)

lemma exec_control: "is_control q \<Longrightarrow> exec e g q t = Inr t"
  by (cases q) simp_all

lemma sql_tables_inv:
  assumes "Q (cur c)" and "Q (persisted c)"
    and "\<And>t'. exec e (uuid_generate_v4 e (length (sent c))) q (cur c) = Inr t' \<Longrightarrow> Q t'"
  shows "Q (cur (snd (sql e q c))) \<and> Q (persisted (snd (sql e q c)))"
proof (cases "is_control q")
  case True
  then consider "q = BEGIN" | "q = COMMIT" | "q = ROLLBACK"
    by (cases q) simp_all
  then show ?thesis
    using assms(1,2)
    by cases
      (auto simp: sql_BEGIN sql_COMMIT sql_ROLLBACK persisted_def logged_def
        split: option.splits txn_state.splits)
next
  case False
  then show ?thesis
    using assms
    by (cases "txn c")
      (auto simp: sql_data persisted_def logged_def split: option.splits sum.splits)
qed

lemma GET_tables_inv:
  assumes step: "\<And>q g t t'. q \<in> data_stmts e d \<Longrightarrow> Q t \<Longrightarrow> exec e g q t = Inr t' \<Longrightarrow> Q t'"
    and "Q (cur c)" and "Q (persisted c)"
  shows "Q (cur (snd (GET e d c))) \<and> Q (persisted (snd (GET e d c)))"
proof (rule GET_state_inv [where P = "\<lambda>c. Q (cur c) \<and> Q (persisted c)"])
  fix q c' assume "q \<in> data_stmts e d \<or> is_control q" and "Q (cur c') \<and> Q (persisted c')"
  then show "Q (cur (snd (sql e q c'))) \<and> Q (persisted (snd (sql e q c')))"
    by (intro sql_tables_inv) (auto intro: step simp: exec_control)
qed (use assms in simp_all)

lemma settle_tables_inv:
  assumes step: "\<And>q g t t'. q \<in> set (waiting c) \<Longrightarrow> Q t \<Longrightarrow> exec e g q t = Inr t' \<Longrightarrow> Q t'"
    and "Q (cur c)" and "Q (persisted c)"
  shows "Q (cur (settle e c)) \<and> Q (persisted (settle e c))"
proof (rule settle_state_inv [where P = "\<lambda>c. Q (cur c) \<and> Q (persisted c)"])
  fix q c' assume "q \<in> set (waiting c)" and "Q (cur c') \<and> Q (persisted c')"
  then show "Q (cur (snd (sql e q c'))) \<and> Q (persisted (snd (sql e q c')))"
    by (intro sql_tables_inv) (auto intro: step)
qed (use assms in simp_all)

text \<open>Both together: the tables when \<^verbatim>\<open>GET\<close> answers, and when the late inserts have run.\<close>

lemma GET_settle_tables_inv:
  assumes step: "\<And>q g t t'. q \<in> data_stmts e d \<Longrightarrow> Q t \<Longrightarrow> exec e g q t = Inr t' \<Longrightarrow> Q t'"
    and "Q (cur c)" and "Q (persisted c)" and "waiting c = []"
  shows "Q (cur (settle e (snd (GET e d c)))) \<and> Q (persisted (settle e (snd (GET e d c))))"
proof (rule settle_tables_inv)
  have w: "set (waiting (snd (GET e d c))) \<subseteq> data_stmts e d"
    by (rule GET_waiting) (simp add: assms(4))
  fix q g t t'
  assume "q \<in> set (waiting (snd (GET e d c)))" and "Q t" and "exec e g q t = Inr t'"
  with w show "Q t'" by (intro step [of q t g t']) auto
next
  show "Q (cur (snd (GET e d c)))" and "Q (persisted (snd (GET e d c)))"
    using GET_tables_inv [where Q = Q, OF step assms(2,3)] by simp_all
qed

lemma in_rows_Some: "x \<in> set (rows t) \<Longrightarrow> \<exists>rs. t = Some rs"
  by (cases t) simp_all

lemma exec_invoices_rows:
  assumes "exec e g q t = Inr t'" and "r \<in> set (rows (invoices_t t'))"
  shows "r \<in> set (rows (invoices_t t))
    \<or> (\<exists>cid amt st dt. q = INSERT_invoices cid amt st dt
        \<and> invoices_row e g cid amt st dt = Some r)"
  using assms by (cases q) (auto split: option.splits if_splits)

lemma exec_users_rows:
  assumes "exec e g q t = Inr t'" and "r \<in> set (rows (users_t t'))"
  shows "r \<in> set (rows (users_t t))
    \<or> (\<exists>i n em pw. q = INSERT_users i n em pw \<and> users_row e i n em pw = Some r)"
  using assms by (cases q) (auto split: option.splits if_splits)

lemma data_stmts_invoice:
  "INSERT_invoices cid amt st dt \<in> data_stmts e d \<Longrightarrow>
     \<exists>i\<in>set (invoices d). cid = invoice_customer_id i \<and> amt = invoice_amount i
       \<and> st = status_text (invoice_status i) \<and> dt = invoice_date i"
  by (auto simp: data_stmts_def insert_user_def insert_customer_def insert_invoice_def
      insert_revenue_def)

lemma data_stmts_user:
  "INSERT_users i n em pw \<in> data_stmts e d \<Longrightarrow>
     \<exists>u\<in>set (users d). \<exists>k. i = user_id u \<and> n = user_name u \<and> em = user_email u
       \<and> pw = bcrypt_hash e k (user_password u) 10"
  by (auto simp: data_stmts_def insert_user_def insert_customer_def insert_invoice_def
      insert_revenue_def)

lemma status_text_cases: "status_text s = ''pending'' \<or> status_text s = ''paid''"
  by (cases s) simp_all

lemma varchar_status [simp]: "varchar 255 (status_text s) = Some (status_text s)"
  by (cases s) (simp_all add: varchar_def)

lemma invoices_row_fields:
  assumes "invoices_row e g cid amt st dt = Some r"
  shows "row_id r = g \<and> uuid_in e cid = Some (row_customer_id r) \<and> varchar 255 st = Some (row_status r)"
  using assms by (auto simp: invoices_row_def split: option.splits)

lemma users_row_fields:
  assumes "users_row e i n em pw = Some r"
  shows "uuid_in e i = Some (user_id r) \<and> varchar 255 n = Some (user_name r)
    \<and> user_email r = em \<and> user_password r = pw"
  using assms by (auto simp: users_row_def split: option.splits)

text \<open>
  Claim C8. Every row of \<^verbatim>\<open>invoices\<close> that an invocation of \<^verbatim>\<open>GET\<close> adds, be it to the
  tables the session sees or to the committed ones, has the status \<^verbatim>\<open>'pending'\<close> or
  \<^verbatim>\<open>'paid'\<close>: a row present afterwards was there before, or its status is one of the two.
  The same holds when the inserts that were still waiting have run.
\<close>

theorem seeded_invoice_status:
  "(\<forall>t\<in>{cur (snd (GET e d c)), persisted (snd (GET e d c))}.
     \<forall>r\<in>set (rows (invoices_t t)).
       r \<in> set (rows (invoices_t (cur c))) \<or> r \<in> set (rows (invoices_t (persisted c)))
       \<or> row_status r = ''pending'' \<or> row_status r = ''paid'')
   \<and> (waiting c = [] \<longrightarrow>
       (\<forall>t\<in>{cur (settle e (snd (GET e d c))), persisted (settle e (snd (GET e d c)))}.
          \<forall>r\<in>set (rows (invoices_t t)).
            r \<in> set (rows (invoices_t (cur c))) \<or> r \<in> set (rows (invoices_t (persisted c)))
            \<or> row_status r = ''pending'' \<or> row_status r = ''paid''))"
proof -
  let ?Q = "\<lambda>t. \<forall>r\<in>set (rows (invoices_t t)).
       r \<in> set (rows (invoices_t (cur c))) \<or> r \<in> set (rows (invoices_t (persisted c)))
       \<or> row_status r = ''pending'' \<or> row_status r = ''paid''"
  have step: "?Q t'" if q: "q \<in> data_stmts e d" and t: "?Q t" and ex: "exec e g q t = Inr t'"
    for q g t t'
  proof
    fix r assume "r \<in> set (rows (invoices_t t'))"
    from exec_invoices_rows [OF ex this] show
      "r \<in> set (rows (invoices_t (cur c))) \<or> r \<in> set (rows (invoices_t (persisted c)))
        \<or> row_status r = ''pending'' \<or> row_status r = ''paid''"
    proof
      assume "r \<in> set (rows (invoices_t t))"
      with t show ?thesis by blast
    next
      assume "\<exists>cid amt st dt. q = INSERT_invoices cid amt st dt
        \<and> invoices_row e g cid amt st dt = Some r"
      then obtain cid amt st dt where q': "q = INSERT_invoices cid amt st dt"
        and r: "invoices_row e g cid amt st dt = Some r" by auto
      from q q' have "INSERT_invoices cid amt st dt \<in> data_stmts e d" by simp
      from data_stmts_invoice [OF this] obtain i :: Invoice where
        "st = status_text (invoice_status i)"
        by blast
      with invoices_row_fields [OF r] have "row_status r = status_text (invoice_status i)"
        by simp
      then show ?thesis using status_text_cases [of "invoice_status i"] by auto
    qed
  qed
  have "?Q (cur (snd (GET e d c))) \<and> ?Q (persisted (snd (GET e d c)))"
    by (rule GET_tables_inv [where Q = ?Q]) (use step in auto)
  moreover have "?Q (cur (settle e (snd (GET e d c)))) \<and> ?Q (persisted (settle e (snd (GET e d c))))"
    if "waiting c = []"
    by (rule GET_settle_tables_inv [where Q = ?Q]) (use step that in auto)
  ultimately show ?thesis by simp
qed

theorem seeded_invoice_status_witness:
  "rows (invoices_t (cur (snd (GET quiet_env one_of_each fresh_client)))) \<noteq> []
   \<and> rows (invoices_t (cur fresh_client)) = []
   \<and> rows (invoices_t (persisted fresh_client)) = []
   \<and> waiting fresh_client = []
   \<and> (row_status (hd (rows (invoices_t (cur (snd (GET quiet_env one_of_each fresh_client))))))
        = ''pending''
      \<or> row_status (hd (rows (invoices_t (cur (snd (GET quiet_env one_of_each fresh_client))))))
        = ''paid'')"
proof -
  have 1: "rows (invoices_t (cur (snd (GET quiet_env one_of_each fresh_client)))) \<noteq> []"
    by (simp add: seed_defs)
  have 2: "rows (invoices_t (cur fresh_client)) = []"
    "rows (invoices_t (persisted fresh_client)) = []" "waiting fresh_client = []"
    by (simp_all add: fresh_client_def empty_tables_def persisted_def)
  from 1 have "hd (rows (invoices_t (cur (snd (GET quiet_env one_of_each fresh_client)))))
      \<in> set (rows (invoices_t (cur (snd (GET quiet_env one_of_each fresh_client)))))"
    by (rule hd_in_set)
  with seeded_invoice_status [of quiet_env one_of_each fresh_client] 1 2
  show ?thesis by auto
qed

text \<open>
  Claim C4. Let the hash primitive satisfy its contract on the fixture's passwords: a hash
  of a password differs from the password, and the library's check accepts it. Then every
  row of \<^verbatim>\<open>users\<close> that an invocation of \<^verbatim>\<open>GET\<close> adds (to the tables the session sees
  or to the committed ones) is the row of a fixture user whose password has been
  replaced, before the insert, by \<^verbatim>\<open>bcrypt.hash(password, 10)\<close>: the stored value is not the
  plaintext and verifies against it. The same holds when the inserts that were still
  waiting have run.
\<close>

theorem seeded_user_password_hashed:
  assumes "\<forall>u\<in>set (users d). \<forall>k.
      bcrypt_hash e k (user_password u) 10 \<noteq> user_password u
      \<and> bcrypt_compare e (user_password u) (bcrypt_hash e k (user_password u) 10)"
  shows "(\<forall>t\<in>{cur (snd (GET e d c)), persisted (snd (GET e d c))}.
     \<forall>r\<in>set (rows (users_t t)).
       r \<in> set (rows (users_t (cur c))) \<or> r \<in> set (rows (users_t (persisted c)))
       \<or> (\<exists>u\<in>set (users d).
            (\<exists>k. users_row e (user_id u) (user_name u) (user_email u)
                    (bcrypt_hash e k (user_password u) 10) = Some r
                  \<and> user_password r = bcrypt_hash e k (user_password u) 10)
            \<and> user_password r \<noteq> user_password u
            \<and> bcrypt_compare e (user_password u) (user_password r)))
   \<and> (waiting c = [] \<longrightarrow>
       (\<forall>t\<in>{cur (settle e (snd (GET e d c))), persisted (settle e (snd (GET e d c)))}.
          \<forall>r\<in>set (rows (users_t t)).
            r \<in> set (rows (users_t (cur c))) \<or> r \<in> set (rows (users_t (persisted c)))
            \<or> (\<exists>u\<in>set (users d).
                 (\<exists>k. users_row e (user_id u) (user_name u) (user_email u)
                         (bcrypt_hash e k (user_password u) 10) = Some r
                       \<and> user_password r = bcrypt_hash e k (user_password u) 10)
                 \<and> user_password r \<noteq> user_password u
                 \<and> bcrypt_compare e (user_password u) (user_password r))))"
proof -
  let ?new = "\<lambda>r. \<exists>u\<in>set (users d).
            (\<exists>k. users_row e (user_id u) (user_name u) (user_email u)
                    (bcrypt_hash e k (user_password u) 10) = Some r
                  \<and> user_password r = bcrypt_hash e k (user_password u) 10)
            \<and> user_password r \<noteq> user_password u
            \<and> bcrypt_compare e (user_password u) (user_password r)"
  let ?Q = "\<lambda>t. \<forall>r\<in>set (rows (users_t t)).
       r \<in> set (rows (users_t (cur c))) \<or> r \<in> set (rows (users_t (persisted c))) \<or> ?new r"
  have step: "?Q t'" if q: "q \<in> data_stmts e d" and t: "?Q t" and ex: "exec e g q t = Inr t'"
    for q g t t'
  proof
    fix r assume "r \<in> set (rows (users_t t'))"
    from exec_users_rows [OF ex this] show
      "r \<in> set (rows (users_t (cur c))) \<or> r \<in> set (rows (users_t (persisted c))) \<or> ?new r"
    proof
      assume "r \<in> set (rows (users_t t))"
      with t show ?thesis by blast
    next
      assume "\<exists>i n em pw. q = INSERT_users i n em pw \<and> users_row e i n em pw = Some r"
      then obtain i n em pw where q': "q = INSERT_users i n em pw"
        and r: "users_row e i n em pw = Some r"
        by auto
      from q q' have "INSERT_users i n em pw \<in> data_stmts e d" by simp
      from data_stmts_user [OF this] obtain u :: User and k where u: "u \<in> set (users d)"
        and f: "i = user_id u" "n = user_name u" "em = user_email u"
        and pw: "pw = bcrypt_hash e k (user_password u) 10"
        by blast
      from users_row_fields [OF r] pw
      have p: "user_password r = bcrypt_hash e k (user_password u) 10" by simp
      moreover have "bcrypt_hash e k (user_password u) 10 \<noteq> user_password u"
        and "bcrypt_compare e (user_password u) (bcrypt_hash e k (user_password u) 10)"
        using assms u by blast+
      ultimately have "?new r" using u r f pw by auto
      then show ?thesis by blast
    qed
  qed
  have "?Q (cur (snd (GET e d c))) \<and> ?Q (persisted (snd (GET e d c)))"
    by (rule GET_tables_inv [where Q = ?Q]) (use step in auto)
  moreover have "?Q (cur (settle e (snd (GET e d c)))) \<and> ?Q (persisted (settle e (snd (GET e d c))))"
    if "waiting c = []"
    by (rule GET_settle_tables_inv [where Q = ?Q]) (use step that in auto)
  ultimately show ?thesis by simp
qed

theorem seeded_user_password_hashed_witness:
  "(\<forall>k. bcrypt_hash quiet_env k (user_password one_user) 10 \<noteq> user_password one_user
        \<and> bcrypt_compare quiet_env (user_password one_user)
            (bcrypt_hash quiet_env k (user_password one_user) 10))
   \<and> rows (users_t (cur (snd (GET quiet_env one_of_each fresh_client)))) \<noteq> []
   \<and> user_password (hd (rows (users_t (cur (snd (GET quiet_env one_of_each fresh_client))))))
        \<noteq> user_password one_user
   \<and> bcrypt_compare quiet_env (user_password one_user)
        (user_password (hd (rows (users_t (cur (snd (GET quiet_env one_of_each fresh_client)))))))"
proof -
  have 0: "\<forall>k. bcrypt_hash quiet_env k (user_password one_user) 10 \<noteq> user_password one_user
        \<and> bcrypt_compare quiet_env (user_password one_user)
            (bcrypt_hash quiet_env k (user_password one_user) 10)"
    by (simp add: quiet_env_def one_user_def)
  then have c: "\<forall>u\<in>set (users one_of_each). \<forall>k.
      bcrypt_hash quiet_env k (user_password u) 10 \<noteq> user_password u
      \<and> bcrypt_compare quiet_env (user_password u) (bcrypt_hash quiet_env k (user_password u) 10)"
    by (simp add: one_of_each_def)
  have 1: "rows (users_t (cur (snd (GET quiet_env one_of_each fresh_client)))) \<noteq> []"
    by (simp add: seed_defs)
  have 2: "rows (users_t (cur fresh_client)) = []" "rows (users_t (persisted fresh_client)) = []"
    by (simp_all add: fresh_client_def empty_tables_def persisted_def)
  have 3: "users one_of_each = [one_user]"
    by (simp add: one_of_each_def)
  from 1 have "hd (rows (users_t (cur (snd (GET quiet_env one_of_each fresh_client)))))
      \<in> set (rows (users_t (cur (snd (GET quiet_env one_of_each fresh_client)))))"
    by (rule hd_in_set)
  with seeded_user_password_hashed [OF c, of fresh_client] 0 1 2 3
  show ?thesis by auto
qed

subsection \<open>The statements an invocation sends\<close>


lemma first_error_None_iff: "first_error as = None \<longleftrightarrow> (\<forall>a\<in>set as. a = None)"
  by (induction as rule: first_error.induct) simp_all




lemma ran_cong: "sent c' = sent c \<Longrightarrow> answered c' = answered c \<Longrightarrow> ran F c' r = ran F c r"
  by (simp add: ran_def)

lemma ran_waiting: "ran F c r \<Longrightarrow> fst r = None \<Longrightarrow> waiting (snd r) = []"
  by (auto simp: ran_def)























subsection \<open>Customers on the successful path\<close>

lemma exec_customers_mono:
  "exec e g q t = Inr t' \<Longrightarrow>
     set (map customer_id (rows (customers_t t))) \<subseteq> set (map customer_id (rows (customers_t t')))"
  by (cases q) (auto split: option.splits if_splits)

lemma exec_customer_present:
  "exec e g (INSERT_customers i n em img) t = Inr t' \<Longrightarrow>
     \<exists>i'. uuid_in e i = Some i' \<and> i' \<in> set (map customer_id (rows (customers_t t')))"
  by (auto simp: customers_row_def split: option.splits if_splits)

lemma Promise_all_ok_sent:
  "Promise_all e qs c = (None, c') \<Longrightarrow> sent c' = sent c @ qs"
  using sent_Promise_all [of e qs c] by simp

lemma Promise_all_hashed_ok_sent:
  "fst (Promise_all_hashed e n qs c) = None \<Longrightarrow>
     sent (snd (Promise_all_hashed e n qs c)) = sent c @ qs"
  by (induction qs arbitrary: c)
    (simp_all add: Promise_all_hashed_Cons del: Promise_all_hashed.simps(2) split: if_splits)

lemma seedUsers_ok_sent:
  assumes "seedUsers e us c = (None, c')"
  shows "\<exists>A. sent c' = sent c @ A"
proof -
  from assms obtain c1 c2 where 1: "sql e CREATE_EXTENSION c = (None, c1)"
    and 2: "sql e CREATE_TABLE_users c1 = (None, c2)"
    and 3: "Promise_all_hashed e (in_flight e (hashed c2))
       (arrange (hash_order e (hashed c2)) (insert_users e (hashed c2) us))
       (c2\<lparr>hashed := hashed c2 + length us\<rparr>) = (None, c')"
    unfolding seedUsers_def await_eq_None by blast
  from 3 have "sent c' = sent c2 @ arrange (hash_order e (hashed c2)) (insert_users e (hashed c2) us)"
    using Promise_all_hashed_ok_sent [of e "in_flight e (hashed c2)"
        "arrange (hash_order e (hashed c2)) (insert_users e (hashed c2) us)"
        "c2\<lparr>hashed := hashed c2 + length us\<rparr>"]
    by simp
  with sql_eqD [OF 1] sql_eqD [OF 2] show ?thesis by simp
qed

lemma two_then_all_ok_sent:
  assumes "await (sql e q1 c) (\<lambda>c1. await (sql e q2 c1) (\<lambda>c2. Promise_all e qs c2)) = (None, c')"
  shows "sent c' = sent c @ [q1, q2] @ qs"
proof -
  from assms obtain c1 c2 where 1: "sql e q1 c = (None, c1)"
    and 2: "sql e q2 c1 = (None, c2)" and 3: "Promise_all e qs c2 = (None, c')"
    unfolding await_eq_None by blast
  from sql_eqD [OF 1] sql_eqD [OF 2] Promise_all_ok_sent [OF 3] show ?thesis by simp
qed

lemma seedCustomers_ok_sent:
  "seedCustomers e cs c = (None, c') \<Longrightarrow> sent c' = sent c @ customers_stmts cs"
  unfolding seedCustomers_def customers_stmts_def by (rule two_then_all_ok_sent)

lemma seedInvoices_ok_sent:
  "seedInvoices e ivs c = (None, c') \<Longrightarrow> sent c' = sent c @ invoices_stmts ivs"
  unfolding seedInvoices_def invoices_stmts_def by (rule two_then_all_ok_sent)

lemma seedRevenue_ok_sent:
  assumes "seedRevenue e rs c = (None, c')"
  shows "sent c' = sent c @ revenue_stmts rs"
proof -
  from assms obtain c1 where 1: "sql e CREATE_TABLE_revenue c = (None, c1)"
    and 3: "Promise_all e (map insert_revenue rs) c1 = (None, c')"
    unfolding seedRevenue_def await_eq_None by blast
  from sql_eqD [OF 1] Promise_all_ok_sent [OF 3] show ?thesis
    by (simp add: revenue_stmts_def)
qed

lemma seed_groups_ok_sent:
  assumes "fst (seed_groups e d c) = None"
  shows "insert_customer ` set (customers d)
    \<subseteq> set (drop (length (sent c)) (sent (snd (seed_groups e d c))))"
proof -
  from assms have "seed_groups e d c = (None, snd (seed_groups e d c))"
    by (simp add: prod_eq_iff)
  then obtain c2 c3 c4 where 2: "seedUsers e (users d) c = (None, c2)"
    and 3: "seedCustomers e (customers d) c2 = (None, c3)"
    and 4: "seedInvoices e (invoices d) c3 = (None, c4)"
    and 5: "seedRevenue e (revenue d) c4 = (None, snd (seed_groups e d c))"
    unfolding seed_groups_def await_eq_None by blast
  from seedUsers_ok_sent [OF 2] obtain A where "sent c2 = sent c @ A" ..
  with seedCustomers_ok_sent [OF 3] seedInvoices_ok_sent [OF 4] seedRevenue_ok_sent [OF 5]
  have "sent (snd (seed_groups e d c)) = sent c @ A @ customers_stmts (customers d)
      @ invoices_stmts (invoices d) @ revenue_stmts (revenue d)"
    by simp
  then show ?thesis
    by (auto simp: customers_stmts_def)
qed

lemma seed_groups_customers_present:
  assumes "\<not> aborted (txn c)" and "fst (seed_groups e d c) = None"
  shows "\<not> aborted (txn (snd (seed_groups e d c)))
    \<and> (\<forall>cu\<in>set (customers d). \<exists>i'. uuid_in e (customer_id cu) = Some i'
          \<and> i' \<in> set (map customer_id (rows (customers_t (cur (snd (seed_groups e d c)))))))"
proof -
  let ?ids = "\<lambda>c'::client. set (map customer_id (rows (customers_t (cur c'))))"
  let ?P = "\<lambda>b c'. b \<longrightarrow> \<not> aborted (txn c')
      \<and> (\<forall>q\<in>set (drop (length (sent c)) (sent c')).
            \<forall>i n em img. q = INSERT_customers i n em img \<longrightarrow>
              (\<exists>i'. uuid_in e i = Some i' \<and> i' \<in> ?ids c'))"
  have "?P (fst (seed_groups e d c) = None) (snd (seed_groups e d c))"
  proof (rule seed_groups_flag [where P = ?P])
    fix q c' b
    assume q: "q \<in> data_stmts e d" and P: "?P b c'"
    show "?P (b \<and> fst (sql e q c') = None) (snd (sql e q c'))"
    proof
      assume "b \<and> fst (sql e q c') = None"
      then have b and ok: "fst (sql e q c') = None" by simp_all
      from q have nc: "\<not> is_control q" by (rule data_stmts_not_control)
      from sql_data_ok [OF nc ok] have t: "\<not> aborted (txn (snd (sql e q c')))"
        and ex: "exec e (uuid_generate_v4 e (length (sent c'))) q (cur c')
            = Inr (cur (snd (sql e q c')))"
        by simp_all
      from exec_customers_mono [OF ex] have mono: "?ids c' \<subseteq> ?ids (snd (sql e q c'))" .
      have "\<forall>q'\<in>set (drop (length (sent c)) (sent (snd (sql e q c')))).
            \<forall>i n em img. q' = INSERT_customers i n em img \<longrightarrow>
              (\<exists>i'. uuid_in e i = Some i' \<and> i' \<in> ?ids (snd (sql e q c')))"
      proof (intro ballI allI impI)
        fix q' i n em img
        assume m: "q' \<in> set (drop (length (sent c)) (sent (snd (sql e q c'))))"
          and eq: "q' = INSERT_customers i n em img"
        from m have "q' \<in> set (drop (length (sent c)) (sent c')) \<or> q' = q"
          by (auto dest: in_set_dropD)
        then show "\<exists>i'. uuid_in e i = Some i' \<and> i' \<in> ?ids (snd (sql e q c'))"
        proof
          assume "q' \<in> set (drop (length (sent c)) (sent c'))"
          with P \<open>b\<close> eq have "\<exists>i'. uuid_in e i = Some i' \<and> i' \<in> ?ids c'" by blast
          with mono show ?thesis by blast
        next
          assume "q' = q"
          with eq ex show ?thesis
            using exec_customer_present by simp
        qed
      qed
      with t show "\<not> aborted (txn (snd (sql e q c')))
        \<and> (\<forall>q'\<in>set (drop (length (sent c)) (sent (snd (sql e q c')))).
            \<forall>i n em img. q' = INSERT_customers i n em img \<longrightarrow>
              (\<exists>i'. uuid_in e i = Some i' \<and> i' \<in> ?ids (snd (sql e q c'))))"
        by (rule conjI)
    qed
  next
    fix c' n assume "?P True c'"
    then show "?P True (c'\<lparr>hashed := n\<rparr>)" by simp
  next
    fix c' :: client and ws :: "stmt list"
    show "?P False (c'\<lparr>waiting := ws\<rparr>)" by simp
  next
    show "?P True c" using assms(1) by simp
  qed
  with assms(2) have 1: "\<not> aborted (txn (snd (seed_groups e d c)))"
    and 2: "\<forall>q\<in>set (drop (length (sent c)) (sent (snd (seed_groups e d c)))).
            \<forall>i n em img. q = INSERT_customers i n em img \<longrightarrow>
              (\<exists>i'. uuid_in e i = Some i' \<and> i' \<in> ?ids (snd (seed_groups e d c)))"
    by simp_all
  have "\<exists>i'. uuid_in e (customer_id cu) = Some i' \<and> i' \<in> ?ids (snd (seed_groups e d c))"
    if "cu \<in> set (customers d)" for cu
  proof -
    from that seed_groups_ok_sent [OF assms(2)]
    have "insert_customer cu \<in> set (drop (length (sent c)) (sent (snd (seed_groups e d c))))"
      by blast
    with 2 show ?thesis
      by (simp add: insert_customer_def)
  qed
  with 1 show ?thesis by blast
qed

lemma sql_COMMIT_ok:
  "sql e COMMIT c5 = (None, c6) \<Longrightarrow> \<not> aborted (txn c5) \<Longrightarrow> cur c6 = cur c5"
  by (auto simp: sql_COMMIT split: option.splits txn_state.splits)

lemma GET_ok_customers_present:
  assumes "fst (GET e d c) = Returns seeded"
  shows "\<forall>cu\<in>set (customers d). \<exists>i'. uuid_in e (customer_id cu) = Some i'
      \<and> i' \<in> set (map customer_id (rows (customers_t (cur (snd (GET e d c))))))"
proof -
  from assms have "fst (GET_try e d c) = None" by (simp add: GET_seeded_iff)
  then have tr: "GET_try e d c = (None, snd (GET_try e d c))" by (simp add: prod_eq_iff)
  then have g: "snd (GET e d c) = snd (GET_try e d c)" by (simp add: GET_ok)
  from tr obtain c1 c5 where b: "sql e BEGIN c = (None, c1)"
    and s: "seed_groups e d c1 = (None, c5)"
    and k: "sql e COMMIT c5 = (None, snd (GET_try e d c))"
    unfolding GET_try_groups await_eq_None by blast
  from b have "\<not> aborted (txn c1)"
    by (auto simp: sql_BEGIN split: option.splits txn_state.splits)
  with s have 5: "\<not> aborted (txn c5)"
    and ids: "\<forall>cu\<in>set (customers d). \<exists>i'. uuid_in e (customer_id cu) = Some i'
      \<and> i' \<in> set (map customer_id (rows (customers_t (cur c5))))"
    using seed_groups_customers_present [of c1 e d] by simp_all
  from k 5 have "cur (snd (GET_try e d c)) = cur c5"
    by (rule sql_COMMIT_ok)
  with ids g show ?thesis by simp
qed

text \<open>
  Claim C6, as amended. If every invoice of the fixture names the id of a customer of the
  fixture, then after a successful invocation every row of \<^verbatim>\<open>invoices\<close> that was not there
  before has a \<^verbatim>\<open>customer_id\<close> that is the id of a row of \<^verbatim>\<open>customers\<close>. Nothing is
  checked at insert time, so the condition on the fixture is needed.
\<close>

theorem seeded_invoice_references_customer:
  assumes "fst (GET e d c) = Returns (Response_json (message ''Database seeded successfully'') 200)"
    and "\<forall>i\<in>set (invoices d). invoice_customer_id i \<in> customer_id ` set (customers d)"
  shows "\<forall>r\<in>set (rows (invoices_t (cur (snd (GET e d c))))).
       r \<in> set (rows (invoices_t (cur c))) \<or> r \<in> set (rows (invoices_t (persisted c)))
       \<or> row_customer_id r \<in> customer_id ` set (rows (customers_t (cur (snd (GET e d c)))))"
proof -
  let ?Q = "\<lambda>t. \<forall>r\<in>set (rows (invoices_t t)).
       r \<in> set (rows (invoices_t (cur c))) \<or> r \<in> set (rows (invoices_t (persisted c)))
       \<or> (\<exists>i\<in>set (invoices d). uuid_in e (invoice_customer_id i) = Some (row_customer_id r))"
  have "?Q (cur (snd (GET e d c))) \<and> ?Q (persisted (snd (GET e d c)))"
  proof (rule GET_tables_inv [where Q = ?Q])
    fix q g t t'
    assume q: "q \<in> data_stmts e d" and t: "?Q t" and ex: "exec e g q t = Inr t'"
    show "?Q t'"
    proof
      fix r assume "r \<in> set (rows (invoices_t t'))"
      from exec_invoices_rows [OF ex this] show
        "r \<in> set (rows (invoices_t (cur c))) \<or> r \<in> set (rows (invoices_t (persisted c)))
          \<or> (\<exists>i\<in>set (invoices d). uuid_in e (invoice_customer_id i) = Some (row_customer_id r))"
      proof
        assume "r \<in> set (rows (invoices_t t))"
        with t show ?thesis by blast
      next
        assume "\<exists>cid amt st dt. q = INSERT_invoices cid amt st dt
          \<and> invoices_row e g cid amt st dt = Some r"
        then obtain cid amt st dt where q': "q = INSERT_invoices cid amt st dt"
          and r: "invoices_row e g cid amt st dt = Some r" by auto
        from q q' have "INSERT_invoices cid amt st dt \<in> data_stmts e d" by simp
        from data_stmts_invoice [OF this] obtain i :: Invoice where "i \<in> set (invoices d)"
          and "cid = invoice_customer_id i"
          by blast
        with invoices_row_fields [OF r] show ?thesis by auto
      qed
    qed
  qed simp_all
  then have new: "?Q (cur (snd (GET e d c)))" ..
  have present: "\<forall>cu\<in>set (customers d). \<exists>i'. uuid_in e (customer_id cu) = Some i'
      \<and> i' \<in> set (map customer_id (rows (customers_t (cur (snd (GET e d c))))))"
    using assms(1) by (intro GET_ok_customers_present) (simp add: seeded_def)
  show ?thesis
  proof
    fix r assume "r \<in> set (rows (invoices_t (cur (snd (GET e d c)))))"
    with new consider "r \<in> set (rows (invoices_t (cur c)))"
      | "r \<in> set (rows (invoices_t (persisted c)))"
      | i where "i \<in> set (invoices d)" "uuid_in e (invoice_customer_id i) = Some (row_customer_id r)"
      by blast
    then show "r \<in> set (rows (invoices_t (cur c))) \<or> r \<in> set (rows (invoices_t (persisted c)))
       \<or> row_customer_id r \<in> customer_id ` set (rows (customers_t (cur (snd (GET e d c)))))"
    proof cases
      case 3
      from 3(1) assms(2) obtain cu where cu: "cu \<in> set (customers d)"
        and eq: "invoice_customer_id i = customer_id cu"
        by auto
      from present cu obtain i' where "uuid_in e (customer_id cu) = Some i'"
        and "i' \<in> set (map customer_id (rows (customers_t (cur (snd (GET e d c))))))"
        by blast
      with 3(2) eq show ?thesis by simp
    qed simp_all
  qed
qed

theorem seeded_invoice_references_customer_witness:
  "fst (GET quiet_env one_of_each fresh_client)
      = Returns (Response_json (message ''Database seeded successfully'') 200)
   \<and> invoice_customer_id one_invoice = customer_id one_customer
   \<and> rows (invoices_t (cur (snd (GET quiet_env one_of_each fresh_client)))) \<noteq> []
   \<and> row_customer_id (hd (rows (invoices_t (cur (snd (GET quiet_env one_of_each fresh_client))))))
      \<in> customer_id ` set (rows (customers_t (cur (snd (GET quiet_env one_of_each fresh_client)))))"
proof -
  have 0: "fst (GET quiet_env one_of_each fresh_client)
      = Returns (Response_json (message ''Database seeded successfully'') 200)"
    by (simp add: seed_defs)
  have f: "invoice_customer_id one_invoice = customer_id one_customer"
    by (simp add: one_invoice_def one_customer_def)
  then have h: "\<forall>i\<in>set (invoices one_of_each).
      invoice_customer_id i \<in> customer_id ` set (customers one_of_each)"
    by (simp add: one_of_each_def)
  have 1: "rows (invoices_t (cur (snd (GET quiet_env one_of_each fresh_client)))) \<noteq> []"
    by (simp add: seed_defs)
  have 2: "rows (invoices_t (cur fresh_client)) = []"
    "rows (invoices_t (persisted fresh_client)) = []"
    by (simp_all add: fresh_client_def empty_tables_def persisted_def)
  from 1 have "hd (rows (invoices_t (cur (snd (GET quiet_env one_of_each fresh_client)))))
      \<in> set (rows (invoices_t (cur (snd (GET quiet_env one_of_each fresh_client)))))"
    by (rule hd_in_set)
  with seeded_invoice_references_customer [OF 0 h] 0 f 1 2
  show ?thesis by auto
qed

text \<open>
  The claim as stated fails for a fixture whose invoice names a customer that is not
  among the customers: the invocation succeeds and the invoice row refers to no row of
  \<^verbatim>\<open>customers\<close>.
\<close>

theorem dangling_customer_id_accepted:
  "fst (GET quiet_env no_customers fresh_client)
      = Returns (Response_json (message ''Database seeded successfully'') 200)
   \<and> rows (customers_t (cur (snd (GET quiet_env no_customers fresh_client)))) = []
   \<and> map row_customer_id (rows (invoices_t (cur (snd (GET quiet_env no_customers fresh_client)))))
      = [''d6e15727-9fe1-4961-8c5b-ea44a9bd81aa'']"
  by (simp add: seed_defs)

subsection \<open>Generated invoice ids\<close>

lemma insert_invoice_id [simp]: "insert_invoice (i\<lparr>invoice_id := x\<rparr>) = insert_invoice i"
  by (simp add: insert_invoice_def)

lemma seedInvoices_ids_generated:
  assumes "r \<in> set (rows (invoices_t (cur (snd (seedInvoices e ivs c)))))"
  shows "r \<in> set (rows (invoices_t (cur c)))
    \<or> (\<exists>k. length (sent c) \<le> k \<and> k < length (sent (snd (seedInvoices e ivs c)))
          \<and> row_id r = uuid_generate_v4 e k)"
proof -
  let ?d = "\<lparr>users = [], customers = [], invoices = ivs, revenue = []\<rparr>"
  let ?I = "\<lambda>c'::client. length (sent c) \<le> length (sent c')
      \<and> (\<forall>r\<in>set (rows (invoices_t (cur c'))). r \<in> set (rows (invoices_t (cur c)))
        \<or> (\<exists>k. length (sent c) \<le> k \<and> k < length (sent c') \<and> row_id r = uuid_generate_v4 e k))"
  have "?I (snd (seedInvoices e (invoices ?d) c))"
  proof (rule seedInvoices_flag [where P = "\<lambda>b. ?I" and d = ?d])
    fix q c' b
    assume q: "q \<in> data_stmts e ?d" and I: "?I c'"
    from q have nc: "\<not> is_control q" by (rule data_stmts_not_control)
    have "r \<in> set (rows (invoices_t (cur c)))
        \<or> (\<exists>k. length (sent c) \<le> k \<and> k < Suc (length (sent c')) \<and> row_id r = uuid_generate_v4 e k)"
      if "r \<in> set (rows (invoices_t (cur (snd (sql e q c')))))" for r
      using sql_data_cur [OF nc, of e c']
    proof
      assume "cur (snd (sql e q c')) = cur c'"
      with that I show ?thesis by (auto intro: less_SucI)
    next
      assume "exec e (uuid_generate_v4 e (length (sent c'))) q (cur c') = Inr (cur (snd (sql e q c')))"
      from exec_invoices_rows [OF this that] show ?thesis
      proof
        assume "r \<in> set (rows (invoices_t (cur c')))"
        with I show ?thesis by (auto intro: less_SucI)
      next
        assume "\<exists>cid amt st dt. q = INSERT_invoices cid amt st dt
          \<and> invoices_row e (uuid_generate_v4 e (length (sent c'))) cid amt st dt = Some r"
        then have "row_id r = uuid_generate_v4 e (length (sent c'))"
          using invoices_row_fields by blast
        with I show ?thesis by auto
      qed
    qed
    with I show "?I (snd (sql e q c'))" by simp
  qed simp
  with assms show ?thesis by simp
qed

lemma distinct_upt_Suc:
  assumes "distinct (map f [0..<Suc n])" and "k < n"
  shows "f k \<noteq> f n"
proof -
  from assms(1) have "f n \<notin> f ` set [0..<n]" by simp
  moreover from assms(2) have "k \<in> set [0..<n]" by simp
  ultimately show ?thesis by (metis imageI)
qed

lemma exec_create_invoices_rows:
  "exec e g CREATE_TABLE_invoices t = Inr t' \<Longrightarrow> rows (invoices_t t') = rows (invoices_t t)"
  by auto

lemma exec_insert_invoice_fresh:
  assumes "exec e g (INSERT_invoices cid amt st dt) t = Inr t'"
    and "g \<notin> set (map row_id (rows (invoices_t t)))"
  shows "\<exists>r. row_id r = g \<and> rows (invoices_t t') = rows (invoices_t t) @ [r]"
  using assms by (auto simp: invoices_row_def split: option.splits if_splits)

lemma generated_ids_step:
  assumes "generated_ids e c" and "rows (invoices_t (cur c1)) = rows (invoices_t (cur c))"
    and "sent c1 = sent c @ [q]"
  shows "generated_ids e c1"
  using assms by (auto simp: generated_ids_def intro: less_SucI)

lemma insert_invoice_fresh:
  assumes ok: "fst (sql e (insert_invoice i) c) = None"
    and gen: "generated_ids e c"
    and dist: "distinct (map (uuid_generate_v4 e) [0..<Suc (length (sent c))])"
  shows "row_count (invoices_t (cur (snd (sql e (insert_invoice i) c))))
      = Suc (row_count (invoices_t (cur c)))
    \<and> generated_ids e (snd (sql e (insert_invoice i) c))"
proof -
  let ?g = "uuid_generate_v4 e (length (sent c))"
  let ?c1 = "snd (sql e (insert_invoice i) c)"
  have nc: "\<not> is_control (insert_invoice i)" by (simp add: insert_invoice_def)
  from sql_data_ok [OF nc ok] have ex: "exec e ?g (insert_invoice i) (cur c) = Inr (cur ?c1)"
    by simp
  have fresh: "?g \<notin> set (map row_id (rows (invoices_t (cur c))))"
  proof
    assume "?g \<in> set (map row_id (rows (invoices_t (cur c))))"
    then obtain r where "r \<in> set (rows (invoices_t (cur c)))" and "row_id r = ?g" by auto
    with gen obtain k where "k < length (sent c)" and "uuid_generate_v4 e k = ?g"
      by (auto simp: generated_ids_def)
    with distinct_upt_Suc [OF dist] show False by blast
  qed
  from ex have "exec e ?g (INSERT_invoices (invoice_customer_id i) (invoice_amount i)
      (status_text (invoice_status i)) (invoice_date i)) (cur c) = Inr (cur ?c1)"
    by (simp add: insert_invoice_def)
  from exec_insert_invoice_fresh [OF this fresh]
  obtain r0 where r0: "row_id r0 = ?g"
    and new: "rows (invoices_t (cur ?c1)) = rows (invoices_t (cur c)) @ [r0]"
    by blast
  from new have "row_count (invoices_t (cur ?c1)) = Suc (row_count (invoices_t (cur c)))"
    by (simp add: row_count_def)
  moreover have "generated_ids e ?c1"
    unfolding generated_ids_def
  proof
    fix r assume "r \<in> set (rows (invoices_t (cur ?c1)))"
    with new r0 have "r \<in> set (rows (invoices_t (cur c))) \<or> row_id r = ?g" by auto
    then show "\<exists>k<length (sent ?c1). row_id r = uuid_generate_v4 e k"
    proof
      assume "r \<in> set (rows (invoices_t (cur c)))"
      with gen show ?thesis by (auto simp: generated_ids_def intro: less_SucI)
    next
      assume "row_id r = ?g"
      then show ?thesis by auto
    qed
  qed
  ultimately show ?thesis by simp
qed

lemma Promise_all_invoices_fresh:
  assumes "fst (Promise_all e (map insert_invoice ivs) c) = None"
    and "generated_ids e c"
    and "distinct (map (uuid_generate_v4 e) [0..<length (sent c) + length ivs])"
  shows "row_count (invoices_t (cur (snd (Promise_all e (map insert_invoice ivs) c))))
      = row_count (invoices_t (cur c)) + length ivs
    \<and> generated_ids e (snd (Promise_all e (map insert_invoice ivs) c))"
  using assms
proof (induction ivs arbitrary: c)
  case Nil
  then show ?case by simp
next
  case (Cons i ivs)
  let ?c1 = "snd (sql e (insert_invoice i) c)"
  from Cons.prems(1) have ok1: "fst (sql e (insert_invoice i) c) = None"
    and ok2: "fst (Promise_all e (map insert_invoice ivs) ?c1) = None"
    by (simp_all only: list.map fst_Promise_all_Cons)
  have d: "[0..<length (sent c) + length (i # ivs)]
      = [0..<Suc (length (sent c))] @ [Suc (length (sent c))..<Suc (length (sent c)) + length ivs]"
    by (simp add: upt_add_eq_append [of 0 "Suc (length (sent c))" "length ivs", simplified])
  from Cons.prems(3) have d1: "distinct (map (uuid_generate_v4 e) [0..<Suc (length (sent c))])"
    unfolding d by simp
  from insert_invoice_fresh [OF ok1 Cons.prems(2) d1]
  have n1: "row_count (invoices_t (cur ?c1)) = Suc (row_count (invoices_t (cur c)))"
    and g1: "generated_ids e ?c1" by simp_all
  from Cons.prems(3) have d2: "distinct (map (uuid_generate_v4 e) [0..<length (sent ?c1) + length ivs])"
    by simp
  from Cons.IH [OF ok2 g1 d2] n1 show ?case
    by (simp only: list.map snd_Promise_all_Cons) simp
qed

lemma seedInvoices_fresh:
  assumes ok: "fst (seedInvoices e ivs c) = None"
    and gen: "generated_ids e c"
    and dist: "distinct (map (uuid_generate_v4 e) [0..<length (sent c) + 2 + length ivs])"
  shows "row_count (invoices_t (cur (snd (seedInvoices e ivs c))))
      = row_count (invoices_t (cur c)) + length ivs
    \<and> generated_ids e (snd (seedInvoices e ivs c))"
proof -
  from ok have "seedInvoices e ivs c = (None, snd (seedInvoices e ivs c))"
    by (simp add: prod_eq_iff)
  then obtain c1 c2 where 1: "sql e CREATE_EXTENSION c = (None, c1)"
    and 2: "sql e CREATE_TABLE_invoices c1 = (None, c2)"
    and 3: "Promise_all e (map insert_invoice ivs) c2 = (None, snd (seedInvoices e ivs c))"
    unfolding seedInvoices_def await_eq_None by blast
  from 1 have s1: "sent c1 = sent c @ [CREATE_EXTENSION]"
    using sql_eqD by blast
  from 1 have r1: "cur c1 = cur c"
    using sql_data_ok [of CREATE_EXTENSION e c] by simp
  from 2 have s2: "sent c2 = sent c1 @ [CREATE_TABLE_invoices]"
    using sql_eqD by blast
  from 2 have "exec e (uuid_generate_v4 e (length (sent c1))) CREATE_TABLE_invoices (cur c1)
      = Inr (cur c2)"
    using sql_data_ok [of CREATE_TABLE_invoices e c1] by (simp del: exec.simps)
  then have r2: "rows (invoices_t (cur c2)) = rows (invoices_t (cur c1))"
    by (rule exec_create_invoices_rows)
  from r1 have "rows (invoices_t (cur c1)) = rows (invoices_t (cur c))" by simp
  with gen have g1: "generated_ids e c1" using s1 by (rule generated_ids_step)
  from g1 r2 s2 have g2: "generated_ids e c2" by (rule generated_ids_step)
  have "length (sent c2) + length ivs = length (sent c) + 2 + length ivs"
    using s1 s2 by simp
  with dist have d2: "distinct (map (uuid_generate_v4 e) [0..<length (sent c2) + length ivs])"
    by (simp only:)
  from 3 have ok3: "fst (Promise_all e (map insert_invoice ivs) c2) = None"
    and e3: "snd (Promise_all e (map insert_invoice ivs) c2) = snd (seedInvoices e ivs c)"
    by simp_all
  from Promise_all_invoices_fresh [OF ok3 g2 d2]
  have "row_count (invoices_t (cur (snd (seedInvoices e ivs c))))
      = row_count (invoices_t (cur c2)) + length ivs
    \<and> generated_ids e (snd (seedInvoices e ivs c))"
    by (simp only: e3)
  moreover have "row_count (invoices_t (cur c2)) = row_count (invoices_t (cur c))"
    using r1 r2 by (simp add: row_count_def)
  ultimately show ?thesis by simp
qed

text \<open>
  Claim C9. \<^verbatim>\<open>seedInvoices\<close> never reads the \<^verbatim>\<open>id\<close> of a fixture invoice: changing the ids
  of the fixture changes nothing. Every row it adds has an id that the server generated
  while running one of its statements. And since the insert names no id, \<^verbatim>\<open>ON CONFLICT
  (id)\<close> can only compare generated ids: when the ids in the table were generated earlier
  and the server never draws the same UUID twice, no insert of a successful run is
  skipped, so the table grows by one row for every fixture invoice, whether or not the
  same fixture was seeded before.
\<close>

theorem seedInvoices_never_writes_id:
  "(\<forall>f. seedInvoices e (map (\<lambda>i. i\<lparr>invoice_id := f i\<rparr>) ivs) c = seedInvoices e ivs c)
   \<and> (\<forall>r\<in>set (rows (invoices_t (cur (snd (seedInvoices e ivs c))))).
        r \<in> set (rows (invoices_t (cur c)))
        \<or> (\<exists>k. length (sent c) \<le> k \<and> k < length (sent (snd (seedInvoices e ivs c)))
              \<and> row_id r = uuid_generate_v4 e k))
   \<and> (fst (seedInvoices e ivs c) = None \<and> generated_ids e c
        \<and> distinct (map (uuid_generate_v4 e) [0..<length (sent c) + 2 + length ivs])
      \<longrightarrow> row_count (invoices_t (cur (snd (seedInvoices e ivs c))))
            = row_count (invoices_t (cur c)) + length ivs
          \<and> generated_ids e (snd (seedInvoices e ivs c)))"
proof (intro conjI allI ballI impI)
  fix f
  have "map insert_invoice (map (\<lambda>i. i\<lparr>invoice_id := f i\<rparr>) ivs) = map insert_invoice ivs"
    by simp
  then show "seedInvoices e (map (\<lambda>i. i\<lparr>invoice_id := f i\<rparr>) ivs) c = seedInvoices e ivs c"
    by (simp only: seedInvoices_def)
next
  fix r assume "r \<in> set (rows (invoices_t (cur (snd (seedInvoices e ivs c)))))"
  then show "r \<in> set (rows (invoices_t (cur c)))
        \<or> (\<exists>k. length (sent c) \<le> k \<and> k < length (sent (snd (seedInvoices e ivs c)))
              \<and> row_id r = uuid_generate_v4 e k)"
    by (rule seedInvoices_ids_generated)
next
  assume h: "fst (seedInvoices e ivs c) = None \<and> generated_ids e c
        \<and> distinct (map (uuid_generate_v4 e) [0..<length (sent c) + 2 + length ivs])"
  then have "row_count (invoices_t (cur (snd (seedInvoices e ivs c))))
            = row_count (invoices_t (cur c)) + length ivs
          \<and> generated_ids e (snd (seedInvoices e ivs c))"
    by (intro seedInvoices_fresh) simp_all
  then show "row_count (invoices_t (cur (snd (seedInvoices e ivs c))))
            = row_count (invoices_t (cur c)) + length ivs"
    and "generated_ids e (snd (seedInvoices e ivs c))"
    by simp_all
qed

theorem seedInvoices_never_writes_id_witness:
  "fst (seedInvoices quiet_env [one_invoice] (snd (GET quiet_env one_of_each fresh_client))) = None
   \<and> generated_ids quiet_env (snd (GET quiet_env one_of_each fresh_client))
   \<and> distinct (map (uuid_generate_v4 quiet_env)
        [0..<length (sent (snd (GET quiet_env one_of_each fresh_client))) + 2 + length [one_invoice]])
   \<and> row_count (invoices_t (cur (snd (GET quiet_env one_of_each fresh_client)))) = 1
   \<and> row_count (invoices_t (cur (snd (seedInvoices quiet_env [one_invoice]
        (snd (GET quiet_env one_of_each fresh_client)))))) = 2"
proof -
  let ?c = "snd (GET quiet_env one_of_each fresh_client)"
  have 1: "fst (seedInvoices quiet_env [one_invoice] ?c) = None"
    by (simp add: seed_defs)
  have len: "length (sent ?c) = 13"
    by (simp add: seed_defs)
  have rs: "map row_id (rows (invoices_t (cur ?c))) = [uuid_generate_v4 quiet_env 9]"
    by (simp add: seed_defs)
  have 2: "generated_ids quiet_env ?c"
    unfolding generated_ids_def len
  proof
    fix r assume "r \<in> set (rows (invoices_t (cur ?c)))"
    then have "row_id r \<in> set (map row_id (rows (invoices_t (cur ?c))))" by simp
    then have "row_id r = uuid_generate_v4 quiet_env 9" by (simp only: rs) simp
    then show "\<exists>k<13. row_id r = uuid_generate_v4 quiet_env k" by (intro exI [of _ 9]) simp
  qed
  have "distinct (map (uuid_generate_v4 quiet_env) [0..<16])"
    by (simp add: quiet_env_def upt_rec)
  then have 3: "distinct (map (uuid_generate_v4 quiet_env)
      [0..<length (sent ?c) + 2 + length [one_invoice]])"
    by (simp add: len)
  have 4: "row_count (invoices_t (cur ?c)) = 1"
    using rs by (simp add: row_count_def) (metis length_map list.size(3,4) One_nat_def add_0)
  from seedInvoices_never_writes_id [of quiet_env "[one_invoice]" ?c] 1 2 3
  have "row_count (invoices_t (cur (snd (seedInvoices quiet_env [one_invoice] ?c))))
      = row_count (invoices_t (cur ?c)) + length [one_invoice]"
    by blast
  with 1 2 3 4 show ?thesis by simp
qed

subsection \<open>Conflicts and violations\<close>

lemma invoices_row_id:
  "(invoices_row e g cid amt st dt = None) = (invoices_row e g' cid amt st dt = None)"
  by (simp add: invoices_row_def split: option.splits)

lemma exec_conflict: "accepts e q \<Longrightarrow> conflicts e g q t \<Longrightarrow> exec e g q t = Inr t"
proof (cases q)
  case (INSERT_invoices cid amt st dt)
  assume a: "accepts e q" and c: "conflicts e g q t"
  from a INSERT_invoices obtain r where r: "invoices_row e g cid amt st dt = Some r"
    using invoices_row_id [of e g cid amt st dt "[]"] by auto
  from invoices_row_fields [OF r] have "row_id r = g" by simp
  with c r INSERT_invoices show ?thesis
    by (auto split: option.splits dest: in_rows_Some)
qed (auto split: option.splits dest: in_rows_Some)

lemma conflicts_not_control: "conflicts e g q t \<Longrightarrow> \<not> is_control q"
  by (cases q) simp_all

lemma logged_cur_same: "logged q r (c\<lparr>cur := cur c\<rparr>) = logged q r c"
  by (simp add: logged_def)

lemma sql_conflict:
  assumes "fault e (length (sent c)) = None" and "\<not> aborted (txn c)" and "accepts e q"
    and "conflicts e (uuid_generate_v4 e (length (sent c))) q (cur c)"
  shows "sql e q c = (None, logged q None c)"
proof -
  from assms(4) have nc: "\<not> is_control q" by (rule conflicts_not_control)
  from assms(3,4) have "exec e (uuid_generate_v4 e (length (sent c))) q (cur c) = Inr (cur c)"
    by (rule exec_conflict)
  with assms(1,2) show ?thesis
    by (simp add: sql_data [OF nc] logged_cur_same)
qed

lemma sql_email_violation:
  assumes "fault e (length (sent c)) = None" and "\<not> aborted (txn c)"
    and "users_row e i n em pw = Some r"
    and "user_id r \<notin> set (map user_id (rows (users_t (cur c))))"
    and "em \<in> set (map user_email (rows (users_t (cur c))))"
  shows "sql e (INSERT_users i n em pw) c
    = (Some (unique_violation ''users_email_key''),
       logged (INSERT_users i n em pw) (Some (unique_violation ''users_email_key''))
         (c\<lparr>txn := fail_txn (txn c)\<rparr>))"
proof -
  from assms(5) obtain rs where rs: "users_t (cur c) = Some rs"
    by (cases "users_t (cur c)") auto
  from users_row_fields [OF assms(3)] have "user_email r = em" by simp
  with assms rs have "exec e (uuid_generate_v4 e (length (sent c))) (INSERT_users i n em pw) (cur c)
      = Inl (unique_violation ''users_email_key'')"
    by simp
  with assms(1,2) show ?thesis
    by (simp add: sql_data del: exec.simps)
qed

lemma GET_try_answers:
  "length (answered c) \<le> length (answered (snd (GET_try e d c)))
   \<and> (fst (GET_try e d c) = None \<longrightarrow>
        (\<forall>a\<in>set (drop (length (answered c)) (answered (snd (GET_try e d c)))). a = None))"
proof -
  let ?P = "\<lambda>b (c'::client). length (answered c) \<le> length (answered c')
      \<and> (b \<longrightarrow> (\<forall>a\<in>set (drop (length (answered c)) (answered c')). a = None))"
  have step: "?P (b \<and> fst (sql e q c') = None) (snd (sql e q c'))" if "?P b c'" for b q c'
    using that by auto
  have "?P (fst (GET_try e d c) = None) (snd (GET_try e d c))"
    unfolding GET_try_groups
  proof (rule await_flag [where P = ?P])
    show "?P (fst (sql e BEGIN c) = None) (snd (sql e BEGIN c))"
      by simp
  next
    fix c1 :: client assume 1: "?P True c1"
    show "?P (fst (await (seed_groups e d c1) (sql e COMMIT)) = None)
        (snd (await (seed_groups e d c1) (sql e COMMIT)))"
    proof (rule await_flag [where P = ?P])
      show "?P (fst (seed_groups e d c1) = None) (snd (seed_groups e d c1))"
      proof (rule seed_groups_flag [where P = ?P])
        fix q b and c' :: client assume "?P b c'"
        then show "?P (b \<and> fst (sql e q c') = None) (snd (sql e q c'))" by (rule step)
      next
        fix n and c' :: client assume "?P True c'"
        then show "?P True (c'\<lparr>hashed := n\<rparr>)" by simp
      next
        fix c' :: client and ws :: "stmt list" assume "?P False c'"
        then show "?P False (c'\<lparr>waiting := ws\<rparr>)" by simp
      next
        show "?P True c1" by (rule 1)
      qed
    next
      fix c5 :: client assume "?P True c5"
      then show "?P (fst (sql e COMMIT c5) = None) (snd (sql e COMMIT c5))"
        by auto
    qed
  qed
  then show ?thesis .
qed

lemma GET_ok_answers:
  assumes "fst (GET e d c) = Returns (Response_json (message ''Database seeded successfully'') 200)"
  shows "\<forall>a\<in>set (drop (length (answered c)) (answered (snd (GET e d c)))). a = None"
proof -
  from assms have ok: "fst (GET_try e d c) = None"
    by (simp add: GET_seeded_iff [symmetric] seeded_def)
  then have "GET_try e d c = (None, snd (GET_try e d c))" by (simp add: prod_eq_iff)
  then have "snd (GET e d c) = snd (GET_try e d c)" by (simp add: GET_ok)
  with GET_try_answers [of c e d] ok show ?thesis by simp
qed

text \<open>
  Claim C5, as amended. Let an insert reach the server (it is not rejected from outside)
  while the transaction is not aborted. If the column types accept its values and a
  stored row has the value of its conflict target (\<^verbatim>\<open>id\<close>, or \<^verbatim>\<open>month\<close> for \<^verbatim>\<open>revenue\<close>),
  the row is skipped silently: the statement resolves and nothing changes but the log.
  A violation of another constraint is not suppressed: an insert into \<^verbatim>\<open>users\<close> whose id
  is not stored and whose email is stored is answered with the violation of the unique
  constraint on \<^verbatim>\<open>users.email\<close>, and the transaction, if one is open, is aborted. And an
  invocation of \<^verbatim>\<open>GET\<close> in which any statement is answered with an error does not answer
  with the success response.
\<close>

theorem conflict_on_target_skipped:
  "(fault e (length (sent c)) = None \<and> \<not> aborted (txn c) \<and> accepts e q
      \<and> conflicts e (uuid_generate_v4 e (length (sent c))) q (cur c)
      \<longrightarrow> sql e q c = (None, logged q None c))
   \<and> (fault e (length (sent c)) = None \<and> \<not> aborted (txn c)
      \<and> users_row e i n em pw = Some r
      \<and> user_id r \<notin> set (map user_id (rows (users_t (cur c))))
      \<and> em \<in> set (map user_email (rows (users_t (cur c))))
      \<longrightarrow> sql e (INSERT_users i n em pw) c
          = (Some (unique_violation ''users_email_key''),
             logged (INSERT_users i n em pw) (Some (unique_violation ''users_email_key''))
               (c\<lparr>txn := fail_txn (txn c)\<rparr>)))
   \<and> (fst (GET e d c) = Returns (Response_json (message ''Database seeded successfully'') 200)
      \<longrightarrow> (\<forall>a\<in>set (drop (length (answered c)) (answered (snd (GET e d c)))). a = None))"
proof (intro conjI impI)
  assume "fault e (length (sent c)) = None \<and> \<not> aborted (txn c) \<and> accepts e q
      \<and> conflicts e (uuid_generate_v4 e (length (sent c))) q (cur c)"
  then show "sql e q c = (None, logged q None c)"
    by (intro sql_conflict) simp_all
next
  assume "fault e (length (sent c)) = None \<and> \<not> aborted (txn c)
      \<and> users_row e i n em pw = Some r
      \<and> user_id r \<notin> set (map user_id (rows (users_t (cur c))))
      \<and> em \<in> set (map user_email (rows (users_t (cur c))))"
  then show "sql e (INSERT_users i n em pw) c
          = (Some (unique_violation ''users_email_key''),
             logged (INSERT_users i n em pw) (Some (unique_violation ''users_email_key''))
               (c\<lparr>txn := fail_txn (txn c)\<rparr>))"
    by (intro sql_email_violation [where r = r]) simp_all
next
  assume "fst (GET e d c) = Returns (Response_json (message ''Database seeded successfully'') 200)"
  then show "\<forall>a\<in>set (drop (length (answered c)) (answered (snd (GET e d c)))). a = None"
    by (rule GET_ok_answers)
qed

theorem conflict_on_target_skipped_witness:
  "fault quiet_env (length (sent (snd (GET quiet_env one_of_each fresh_client)))) = None
   \<and> \<not> aborted (txn (snd (GET quiet_env one_of_each fresh_client)))
   \<and> accepts quiet_env (INSERT_users ''410544B2-4001-4271-9855-FEC4B6A6442A'' ''User'' ''user@nextmail.com'' ''$2b$10$123456'')
   \<and> conflicts quiet_env (uuid_generate_v4 quiet_env (length (sent (snd (GET quiet_env one_of_each fresh_client))))) (INSERT_users ''410544B2-4001-4271-9855-FEC4B6A6442A'' ''User'' ''user@nextmail.com'' ''$2b$10$123456'') (cur (snd (GET quiet_env one_of_each fresh_client)))
   \<and> sql quiet_env (INSERT_users ''410544B2-4001-4271-9855-FEC4B6A6442A'' ''User'' ''user@nextmail.com'' ''$2b$10$123456'') (snd (GET quiet_env one_of_each fresh_client)) = (None, logged (INSERT_users ''410544B2-4001-4271-9855-FEC4B6A6442A'' ''User'' ''user@nextmail.com'' ''$2b$10$123456'') None (snd (GET quiet_env one_of_each fresh_client)))
   \<and> users_row quiet_env ''3958dc9e-712f-4377-85e9-fec4b6a6442a'' ''Other'' ''user@nextmail.com'' ''$2b$10$123456'' = Some \<lparr>user_id = ''3958dc9e-712f-4377-85e9-fec4b6a6442a'', user_name = ''Other'', user_email = ''user@nextmail.com'', user_password = ''$2b$10$123456''\<rparr>
   \<and> user_id \<lparr>user_id = ''3958dc9e-712f-4377-85e9-fec4b6a6442a'', user_name = ''Other'', user_email = ''user@nextmail.com'', user_password = ''$2b$10$123456''\<rparr> \<notin> set (map user_id (rows (users_t (cur (snd (GET quiet_env one_of_each fresh_client))))))
   \<and> ''user@nextmail.com'' \<in> set (map user_email (rows (users_t (cur (snd (GET quiet_env one_of_each fresh_client))))))
   \<and> sql quiet_env (INSERT_users ''3958dc9e-712f-4377-85e9-fec4b6a6442a'' ''Other'' ''user@nextmail.com'' ''$2b$10$123456'') (snd (GET quiet_env one_of_each fresh_client))
       = (Some (unique_violation ''users_email_key''), logged (INSERT_users ''3958dc9e-712f-4377-85e9-fec4b6a6442a'' ''Other'' ''user@nextmail.com'' ''$2b$10$123456'') (Some (unique_violation ''users_email_key'')) ((snd (GET quiet_env one_of_each fresh_client))\<lparr>txn := fail_txn (txn (snd (GET quiet_env one_of_each fresh_client)))\<rparr>))
   \<and> fst (GET quiet_env one_of_each fresh_client) = Returns (Response_json (message ''Database seeded successfully'') 200)
   \<and> list_all (\<lambda>a. a = None) (drop (length (answered fresh_client)) (answered (snd (GET quiet_env one_of_each fresh_client))))"
proof -
  let ?c = "snd (GET quiet_env one_of_each fresh_client)"
  let ?q = "INSERT_users ''410544B2-4001-4271-9855-FEC4B6A6442A'' ''User'' ''user@nextmail.com'' ''$2b$10$123456''"
  let ?r = "\<lparr>user_id = ''3958dc9e-712f-4377-85e9-fec4b6a6442a'', user_name = ''Other'', user_email = ''user@nextmail.com'', user_password = ''$2b$10$123456''\<rparr>"
  have h1: "fault quiet_env (length (sent ?c)) = None"
    by (simp add: quiet_env_def)
  have h2: "\<not> aborted (txn ?c)"
    by (simp add: seed_defs)
  have h3: "accepts quiet_env ?q"
    by (simp add: seed_defs)
  have h4: "conflicts quiet_env (uuid_generate_v4 quiet_env (length (sent ?c))) ?q (cur ?c)"
    by (simp add: seed_defs)
  have h5: "users_row quiet_env ''3958dc9e-712f-4377-85e9-fec4b6a6442a'' ''Other'' ''user@nextmail.com'' ''$2b$10$123456'' = Some ?r"
    by (simp add: seed_defs)
  have h6: "user_id ?r \<notin> set (map user_id (rows (users_t (cur ?c))))"
    by (simp add: seed_defs)
  have h7: "''user@nextmail.com'' \<in> set (map user_email (rows (users_t (cur ?c))))"
    by (simp add: seed_defs)
  have h8: "fst (GET quiet_env one_of_each fresh_client) = Returns (Response_json (message ''Database seeded successfully'') 200)"
    by (simp add: seed_defs)
  note T = conflict_on_target_skipped [where e = quiet_env and c = "?c" and q = "?q"
      and i = "''3958dc9e-712f-4377-85e9-fec4b6a6442a''" and n = "''Other''"
      and em = "''user@nextmail.com''" and pw = "''$2b$10$123456''" and r = "?r"]
  from T h1 h2 h3 h4 have c1: "sql quiet_env ?q ?c = (None, logged ?q None ?c)"
    by blast
  from T h1 h2 h5 h6 h7 have c2: "sql quiet_env (INSERT_users ''3958dc9e-712f-4377-85e9-fec4b6a6442a'' ''Other'' ''user@nextmail.com'' ''$2b$10$123456'') ?c
       = (Some (unique_violation ''users_email_key''), logged (INSERT_users ''3958dc9e-712f-4377-85e9-fec4b6a6442a'' ''Other'' ''user@nextmail.com'' ''$2b$10$123456'') (Some (unique_violation ''users_email_key'')) (?c\<lparr>txn := fail_txn (txn ?c)\<rparr>))"
    by blast
  from conflict_on_target_skipped [where e = quiet_env and c = fresh_client and d = one_of_each] h8
  have c3: "list_all (\<lambda>a. a = None) (drop (length (answered fresh_client)) (answered ?c))"
    by (simp add: list_all_iff)
  from h1 h2 h3 h4 c1 h5 h6 h7 c2 h8 c3 show ?thesis
    by (intro conjI)
qed

text \<open>
  The claim as stated fails for the second of two users with different ids and the same
  email: the constraint violation is not suppressed, the invocation fails with it.
\<close>

theorem email_violation_surfaces:
  "fst (GET quiet_env same_email fresh_client)
     = Returns (Response_json (error (unique_violation ''users_email_key'')) 500)"
  by (simp add: seed_defs)

end
